theory Spec2Isabelle
  imports Main
begin

section \<open>JavaScript values\<close>

text \<open>
  The values that flow through \<^verbatim>\<open>src/index.js\<close>: bind parameters, option objects,
  completion handlers, result rows, field metadata and errors. Numbers are the integer-valued
  JavaScript numbers and \<open>NaN\<close>: \<open>JNum n\<close> is the number that JavaScript writes with the
  digits of \<open>n\<close>, which is \<open>n\<close> itself up to \<open>2\<^sup>5\<^sup>3\<close> in absolute value; fractions and
  infinities are outside the model. Strings are byte strings. An object is the list
  of its enumerable own properties in insertion order (keys are meant to be distinct; a lookup
  takes the first). A function is named by its source text, which is what string coercion
  yields. \<open>JErr msg\<close> is an \<^verbatim>\<open>Error\<close> object with that message.
\<close>

datatype jsval =
    JUndefined
  | JNull
  | JBool bool
  | JNum int
  | JNaN
  | JStr string
  | JArr "jsval list"
  | JObj "(string \<times> jsval) list"
  | JFun string
  | JErr string

text \<open>ToBoolean: what \<^verbatim>\<open>if (v)\<close>, \<^verbatim>\<open>v ? a : b\<close>, \<^verbatim>\<open>&&\<close>, \<^verbatim>\<open>||\<close> and \<^verbatim>\<open>!\<close> test.\<close>

fun truthy :: "jsval \<Rightarrow> bool" where
  "truthy JUndefined = False"
| "truthy JNull = False"
| "truthy (JBool b) = b"
| "truthy (JNum n) = (n \<noteq> 0)"
| "truthy JNaN = False"
| "truthy (JStr s) = (s \<noteq> [])"
| "truthy (JArr xs) = True"
| "truthy (JObj kvs) = True"
| "truthy (JFun src) = True"
| "truthy (JErr msg) = True"

text \<open>\<^verbatim>\<open>a && b\<close> and \<^verbatim>\<open>a || b\<close> return one of their operands.\<close>

definition js_and :: "jsval \<Rightarrow> jsval \<Rightarrow> jsval" where
  "js_and a b = (if truthy a then b else a)"

definition js_or :: "jsval \<Rightarrow> jsval \<Rightarrow> jsval" where
  "js_or a b = (if truthy a then a else b)"

text \<open>\<^verbatim>\<open>Array.isArray\<close>.\<close>

fun is_array :: "jsval \<Rightarrow> bool" where
  "is_array (JArr xs) = True"
| "is_array v = False"

text \<open>
  Property read \<^verbatim>\<open>o.name\<close> for the five option names the source reads
  (\<^verbatim>\<open>expire\<close>, \<^verbatim>\<open>keyPrefix\<close>, \<^verbatim>\<open>hashType\<close>, \<^verbatim>\<open>caching\<close>, \<^verbatim>\<open>hash\<close>). The source
  guards every read with \<^verbatim>\<open>options &&\<close>, so the receiver is truthy; a truthy value that
  is not a plain object (a function, an array, a string, a number) has none of these
  properties and the read yields \<^verbatim>\<open>undefined\<close>.
\<close>

fun get_prop :: "jsval \<Rightarrow> string \<Rightarrow> jsval" where
  "get_prop (JObj kvs) name = (case map_of kvs name of None \<Rightarrow> JUndefined | Some v \<Rightarrow> v)"
| "get_prop v name = JUndefined"

text \<open>\<^verbatim>\<open>(options && options.name) || dflt\<close>, the idiom of every option read.\<close>

definition opt_or :: "jsval \<Rightarrow> string \<Rightarrow> jsval \<Rightarrow> jsval" where
  "opt_or options name dflt = js_or (js_and options (get_prop options name)) dflt"

subsection \<open>String coercion and \<^verbatim>\<open>+\<close>\<close>

definition digit_char :: "nat \<Rightarrow> char" where
  "digit_char n = ''0123456789abcdef'' ! n"

function show_nat :: "nat \<Rightarrow> string" where
  "show_nat n = (if n < 10 then [digit_char n] else show_nat (n div 10) @ [digit_char (n mod 10)])"
  by pat_completeness auto
termination
  by (relation "measure id") auto

declare show_nat.simps [simp del]

text \<open>
  Number::toString for integer-valued numbers: the decimal digits up to 21 of them, and from
  \<open>10\<^sup>2\<^sup>1\<close> on the exponent notation, the digits without their trailing zeros, a point
  behind the first of them, and \<^verbatim>\<open>e+\<close> with the exponent.
\<close>

definition strip_zeros :: "string \<Rightarrow> string" where
  "strip_zeros ds = rev (dropWhile (\<lambda>c. c = CHR ''0'') (rev ds))"

definition exp_text :: "nat \<Rightarrow> string" where
  "exp_text n =
     (let ds = show_nat n; s = strip_zeros ds
      in hd s # (if tl s = [] then [] else CHR ''.'' # tl s) @ ''e+'' @ show_nat (length ds - 1))"

definition nat_text :: "nat \<Rightarrow> string" where
  "nat_text n = (if n < 1000000000000000000000 then show_nat n else exp_text n)"

definition number_text :: "int \<Rightarrow> string" where
  "number_text i = (if i < 0 then CHR ''-'' # nat_text (nat (- i)) else nat_text (nat i))"

text \<open>
  ToString. An array is its elements joined by commas, \<^verbatim>\<open>null\<close> and \<^verbatim>\<open>undefined\<close>
  elements giving the empty string; a plain object is \<^verbatim>\<open>[object Object]\<close>; an
  \<^verbatim>\<open>Error\<close> is \<^verbatim>\<open>Error: \<close> and its message, or \<^verbatim>\<open>Error\<close> alone when the message is
  empty.
\<close>

fun ToString :: "jsval \<Rightarrow> string"
  and join_elems :: "jsval list \<Rightarrow> string" where
  "ToString JUndefined = ''undefined''"
| "ToString JNull = ''null''"
| "ToString (JBool b) = (if b then ''true'' else ''false'')"
| "ToString (JNum n) = number_text n"
| "ToString JNaN = ''NaN''"
| "ToString (JStr s) = s"
| "ToString (JArr xs) = join_elems xs"
| "ToString (JObj kvs) = ''[object Object]''"
| "ToString (JFun src) = src"
| "ToString (JErr msg) = (if msg = [] then ''Error'' else ''Error: '' @ msg)"
| "join_elems [] = []"
| "join_elems (x # xs) =
     (if x = JUndefined \<or> x = JNull then [] else ToString x)
     @ (if xs = [] then [] else CHR '','' # join_elems xs)"

text \<open>
  ToPrimitive leaves \<^verbatim>\<open>undefined\<close>, \<^verbatim>\<open>null\<close>, booleans and numbers as they are and turns
  everything else into a string; ToNumber of those four kinds is \<open>None\<close> for \<open>NaN\<close>.
\<close>

fun stringish :: "jsval \<Rightarrow> bool" where
  "stringish JUndefined = False"
| "stringish JNull = False"
| "stringish (JBool b) = False"
| "stringish (JNum n) = False"
| "stringish JNaN = False"
| "stringish v = True"

fun ToNumber :: "jsval \<Rightarrow> int option" where
  "ToNumber JNull = Some 0"
| "ToNumber (JBool b) = Some (if b then 1 else 0)"
| "ToNumber (JNum n) = Some n"
| "ToNumber v = None"

text \<open>
  The binary \<^verbatim>\<open>+\<close>: concatenation when either operand is a string after ToPrimitive,
  the sum of the numbers otherwise (exact within \<open>2\<^sup>5\<^sup>3\<close>; the rounding of larger sums is
  not followed).
\<close>

definition js_plus :: "jsval \<Rightarrow> jsval \<Rightarrow> jsval" where
  "js_plus a b =
     (if stringish a \<or> stringish b then JStr (ToString a @ ToString b)
      else (case (ToNumber a, ToNumber b) of
              (Some x, Some y) \<Rightarrow> JNum (x + y)
            | _ \<Rightarrow> JNaN))"

subsection \<open>\<^verbatim>\<open>JSON.stringify\<close>\<close>

text \<open>
  QuoteJSONString: the quote, the backslash and the control characters are escaped.
\<close>

definition quote_char :: "char \<Rightarrow> string" where
  "quote_char c =
     (if c = CHR 0x22 then [CHR 0x5C, CHR 0x22]
      else if c = CHR 0x5C then [CHR 0x5C, CHR 0x5C]
      else if c = CHR 0x08 then [CHR 0x5C, CHR ''b'']
      else if c = CHR 0x09 then [CHR 0x5C, CHR ''t'']
      else if c = CHR 0x0A then [CHR 0x5C, CHR ''n'']
      else if c = CHR 0x0C then [CHR 0x5C, CHR ''f'']
      else if c = CHR 0x0D then [CHR 0x5C, CHR ''r'']
      else if (of_char c :: nat) < 32
        then [CHR 0x5C, CHR ''u'', CHR ''0'', CHR ''0'',
              digit_char (of_char c div 16), digit_char (of_char c mod 16)]
      else [c])"

definition quote :: "string \<Rightarrow> string" where
  "quote s = CHR 0x22 # concat (map quote_char s) @ [CHR 0x22]"

fun commas :: "string list \<Rightarrow> string" where
  "commas [] = []"
| "commas [s] = s"
| "commas (s # t # ss) = s @ CHR '','' # commas (t # ss)"

text \<open>
  SerializeJSONProperty. \<open>None\<close> is the result \<^verbatim>\<open>undefined\<close> (for \<^verbatim>\<open>undefined\<close> and
  functions); inside an array such an element is written \<^verbatim>\<open>null\<close>, inside an object the
  property is left out. \<open>NaN\<close> is written \<^verbatim>\<open>null\<close>. An \<^verbatim>\<open>Error\<close> has no enumerable
  property. Objects with a \<^verbatim>\<open>toJSON\<close> method are outside the model.
\<close>

fun JSON_ser :: "jsval \<Rightarrow> string option"
  and ser_elems :: "jsval list \<Rightarrow> string list"
  and ser_props :: "(string \<times> jsval) list \<Rightarrow> string list" where
  "JSON_ser JUndefined = None"
| "JSON_ser JNull = Some ''null''"
| "JSON_ser (JBool b) = Some (if b then ''true'' else ''false'')"
| "JSON_ser (JNum n) = Some (number_text n)"
| "JSON_ser JNaN = Some ''null''"
| "JSON_ser (JStr s) = Some (quote s)"
| "JSON_ser (JArr xs) = Some (''['' @ commas (ser_elems xs) @ '']'')"
| "JSON_ser (JObj kvs) = Some (''{'' @ commas (ser_props kvs) @ ''}'')"
| "JSON_ser (JFun src) = None"
| "JSON_ser (JErr msg) = Some ''{}''"
| "ser_elems [] = []"
| "ser_elems (x # xs) = (case JSON_ser x of None \<Rightarrow> ''null'' | Some s \<Rightarrow> s) # ser_elems xs"
| "ser_props [] = []"
| "ser_props (kv # kvs) =
     (case JSON_ser (snd kv) of
        None \<Rightarrow> ser_props kvs
      | Some s \<Rightarrow> (quote (fst kv) @ CHR '':'' # s) # ser_props kvs)"

definition JSON_stringify :: "jsval \<Rightarrow> jsval" where
  "JSON_stringify v = (case JSON_ser v of None \<Rightarrow> JUndefined | Some s \<Rightarrow> JStr s)"

section \<open>The libraries the source requires\<close>

text \<open>
  \<^verbatim>\<open>farmhash\<close>, \<^verbatim>\<open>string64\<close>, \<^verbatim>\<open>crypto\<close> and the text parser of \<^verbatim>\<open>JSON.parse\<close> are not
  part of the repository; they are parameters of the model. \<open>JSON_parse_text\<close> returns
  \<open>Inl msg\<close> where \<^verbatim>\<open>JSON.parse\<close> throws a \<^verbatim>\<open>SyntaxError\<close>.
\<close>

record libs =
  fingerprint32 :: "string \<Rightarrow> jsval"
  fingerprint64 :: "string \<Rightarrow> jsval"
  parseInt :: "jsval \<Rightarrow> jsval"
  toString64 :: "jsval \<Rightarrow> string"
  blake2b512_base64 :: "string \<Rightarrow> string"
  JSON_parse_text :: "string \<Rightarrow> string + jsval"

text \<open>\<^verbatim>\<open>JSON.parse(v)\<close> coerces its argument to a string first.\<close>

definition JSON_parse :: "libs \<Rightarrow> jsval \<Rightarrow> jsval + jsval" where
  "JSON_parse L v =
     (case JSON_parse_text L (ToString v) of
        Inl msg \<Rightarrow> Inl (JErr msg)
      | Inr d \<Rightarrow> Inr d)"

section \<open>Hash strategies\<close>

text \<open>
  \<^verbatim>\<open>HashTypes = { farmhash32: 0, farmhash64: 1, blake2b512: 2, full: 3 }\<close> and
  \<^verbatim>\<open>Caching = { CACHE: 0, SKIP: 1, REFRESH: 2 }\<close> (index.js, lines 6 to 17).
\<close>

definition HashTypes_farmhash32 :: jsval where "HashTypes_farmhash32 = JNum 0"
definition HashTypes_farmhash64 :: jsval where "HashTypes_farmhash64 = JNum 1"
definition HashTypes_blake2b512 :: jsval where "HashTypes_blake2b512 = JNum 2"
definition HashTypes_full :: jsval where "HashTypes_full = JNum 3"

definition Caching_CACHE :: jsval where "Caching_CACHE = JNum 0"
definition Caching_SKIP :: jsval where "Caching_SKIP = JNum 1"
definition Caching_REFRESH :: jsval where "Caching_REFRESH = JNum 2"

text \<open>
  \<^verbatim>\<open>hash(sql, hashType)\<close> (index.js, lines 28 to 40). The \<^verbatim>\<open>switch\<close> compares with
  \<^verbatim>\<open>===\<close>; the cases are tried in the order of the source and \<^verbatim>\<open>farmhash32\<close> shares the
  \<^verbatim>\<open>default\<close> arm.
\<close>

definition hash :: "libs \<Rightarrow> string \<Rightarrow> jsval \<Rightarrow> string" where
  "hash L sql hashType =
     (if hashType = HashTypes_blake2b512 then blake2b512_base64 L sql
      else if hashType = HashTypes_full then sql
      else if hashType = HashTypes_farmhash64
        then toString64 L (parseInt L (fingerprint32 L sql))
      else toString64 L (parseInt L (fingerprint64 L sql)))"

section \<open>Instance options\<close>

text \<open>
  \<^verbatim>\<open>this.cacheOptions\<close>, filled by the constructors of \<^verbatim>\<open>MysqlRedis\<close> and
  \<^verbatim>\<open>MysqlRedisAsync\<close> (index.js, lines 43 to 52 and 143 to 152, the same code) from
  \<^verbatim>\<open>defaultCacheOptions\<close> (lines 21 to 26).
\<close>

record cacheOptions =
  expire :: jsval
  keyPrefix :: jsval
  hashType :: jsval
  caching :: jsval

definition defaultCacheOptions :: cacheOptions where
  "defaultCacheOptions =
     \<lparr>expire = JNum 2629746, keyPrefix = JStr ''sql.'',
      hashType = HashTypes_farmhash32, caching = Caching_CACHE\<rparr>"

definition new_cacheOptions :: "jsval \<Rightarrow> cacheOptions" where
  "new_cacheOptions arg =
     \<lparr>expire = opt_or arg ''expire'' (expire defaultCacheOptions),
      keyPrefix = opt_or arg ''keyPrefix'' (keyPrefix defaultCacheOptions),
      hashType = opt_or arg ''hashType'' (hashType defaultCacheOptions),
      caching = opt_or arg ''caching'' (caching defaultCacheOptions)\<rparr>"

section \<open>The two stores\<close>

text \<open>
  The primary store and the cache store are outside the repository. For one call of
  \<^verbatim>\<open>query\<close> the behaviour of a store is its answer to each request: \<open>Inl msg\<close> is a failure
  with an \<^verbatim>\<open>Error\<close> of that message, \<open>Inr\<close> a success. The primary store answers with the
  rows and the field metadata; \<^verbatim>\<open>get\<close> answers with the stored text or \<^verbatim>\<open>null\<close>;
  \<^verbatim>\<open>set\<close> takes the key, the value, the literal \<^verbatim>\<open>"EX"\<close> and the expiry.
\<close>

record stores =
  primary_query :: "string \<Rightarrow> jsval \<Rightarrow> string + jsval \<times> jsval"
  cache_get :: "jsval \<Rightarrow> string + jsval"
  cache_set :: "jsval \<Rightarrow> jsval \<Rightarrow> jsval \<Rightarrow> jsval \<Rightarrow> string + jsval"

text \<open>
  The completion convention of the drivers: \<^verbatim>\<open>callback(err)\<close> on failure,
  \<^verbatim>\<open>callback(null, rows, fields)\<close> and \<^verbatim>\<open>callback(null, reply)\<close> on success.
\<close>

definition mysqlConn_query_cb :: "stores \<Rightarrow> string \<Rightarrow> jsval \<Rightarrow> jsval \<times> jsval \<times> jsval" where
  "mysqlConn_query_cb S sql vals =
     (case primary_query S sql vals of
        Inl msg \<Rightarrow> (JErr msg, JUndefined, JUndefined)
      | Inr (rows, flds) \<Rightarrow> (JNull, rows, flds))"

definition redisClient_get_cb :: "stores \<Rightarrow> jsval \<Rightarrow> jsval \<times> jsval" where
  "redisClient_get_cb S key =
     (case cache_get S key of
        Inl msg \<Rightarrow> (JErr msg, JUndefined)
      | Inr reply \<Rightarrow> (JNull, reply))"

text \<open>
  What a call of \<^verbatim>\<open>query\<close> does to the outside, in order: the calls of \<^verbatim>\<open>hash\<close> and the
  requests sent to the stores.
\<close>

datatype event =
    HashCall string jsval
  | MysqlQuery string jsval
  | RedisGet jsval
  | RedisSet jsval jsval jsval jsval

fun is_cache_event :: "event \<Rightarrow> bool" where
  "is_cache_event (RedisGet k) = True"
| "is_cache_event (RedisSet k v m e) = True"
| "is_cache_event ev = False"



section \<open>Key derivation and option resolution\<close>

text \<open>
  Lines 59 to 67 of \<^verbatim>\<open>MysqlRedis.query\<close> and lines 160 to 167 of
  \<^verbatim>\<open>MysqlRedisAsync.query\<close> are the same statements; they are modelled once, as functions of
  the \<^verbatim>\<open>options\<close> value each adapter has selected.
  \<^verbatim>\<open>const _s = sql + JSON.stringify(values)\<close>: \<^verbatim>\<open>sql\<close> is a string, so \<^verbatim>\<open>+\<close> concatenates,
  and an \<^verbatim>\<open>undefined\<close> serialisation is appended as the text \<^verbatim>\<open>undefined\<close>.
\<close>

definition payload :: "string \<Rightarrow> jsval \<Rightarrow> string" where
  "payload sql vals = sql @ ToString (JSON_stringify vals)"

definition literal_key :: "jsval \<Rightarrow> jsval" where
  "literal_key options = js_and options (get_prop options ''hash'')"

definition derive_key :: "libs \<Rightarrow> cacheOptions \<Rightarrow> jsval \<Rightarrow> string \<Rightarrow> jsval \<Rightarrow> jsval" where
  "derive_key L this options sql vals =
     (let s = payload sql vals;
          prefix = opt_or options ''keyPrefix'' (keyPrefix this);
          ht = opt_or options ''hashType'' (hashType this)
      in js_plus prefix
           (if truthy (literal_key options) then literal_key options
            else JStr (hash L s ht)))"

text \<open>\<^verbatim>\<open>||\<close> evaluates \<^verbatim>\<open>hash(_s, hashType)\<close> only when the literal key is falsy.\<close>

definition hash_events :: "cacheOptions \<Rightarrow> jsval \<Rightarrow> string \<Rightarrow> jsval \<Rightarrow> event list" where
  "hash_events this options sql vals =
     (if truthy (literal_key options) then []
      else [HashCall (payload sql vals) (opt_or options ''hashType'' (hashType this))])"

datatype mode = SKIP | REFRESH | CACHE

text \<open>\<^verbatim>\<open>switch (caching)\<close>: \<^verbatim>\<open>Caching.CACHE\<close> shares the \<^verbatim>\<open>default\<close> arm.\<close>

definition switch_caching :: "jsval \<Rightarrow> mode" where
  "switch_caching c =
     (if c = Caching_SKIP then SKIP else if c = Caching_REFRESH then REFRESH else CACHE)"

definition resolved_mode :: "cacheOptions \<Rightarrow> jsval \<Rightarrow> mode" where
  "resolved_mode this options = switch_caching (opt_or options ''caching'' (caching this))"

definition resolved_expire :: "cacheOptions \<Rightarrow> jsval \<Rightarrow> jsval" where
  "resolved_expire this options = opt_or options ''expire'' (expire this)"

text \<open>\<^verbatim>\<open>Array.isArray(values) ? values : []\<close>, the parameters sent to the primary store.\<close>

definition bind_params :: "jsval \<Rightarrow> jsval" where
  "bind_params vals = (if is_array vals then vals else JArr [])"

text \<open>\<^verbatim>\<open>[{ cacheHit: key }]\<close>.\<close>

definition cacheHit :: "jsval \<Rightarrow> jsval" where
  "cacheHit key = JArr [JObj [(''cacheHit'', key)]]"

section \<open>The completion-callback adapter\<close>

text \<open>
  The adapter ends by evaluating the call \<^verbatim>\<open>cb(...)\<close>: \<open>Invoke cb args\<close> (JavaScript raises a
  \<^verbatim>\<open>TypeError\<close> there when \<^verbatim>\<open>cb\<close> is not a function). \<open>Uncaught e\<close>: an exception left
  the driver's callback and \<^verbatim>\<open>cb\<close> was never called.
\<close>

datatype cb_outcome = Invoke jsval "jsval list" | Uncaught jsval

text \<open>Lines 55 and 56: the handler and the options, by position.\<close>

definition cb_handler :: "jsval \<Rightarrow> jsval \<Rightarrow> jsval \<Rightarrow> jsval" where
  "cb_handler vals options_arg cb_arg =
     (if truthy cb_arg then cb_arg else if truthy options_arg then options_arg else vals)"

definition cb_options :: "jsval \<Rightarrow> jsval \<Rightarrow> jsval \<Rightarrow> jsval" where
  "cb_options vals options_arg cb_arg =
     (if truthy cb_arg then options_arg else if \<not> is_array vals then vals else JObj [])"

text \<open>\<^verbatim>\<open>MysqlRedis.query(sql, values, _options, _cb)\<close> (index.js, lines 54 to 137).\<close>

definition MysqlRedis_query ::
  "libs \<Rightarrow> stores \<Rightarrow> cacheOptions \<Rightarrow> string \<Rightarrow> jsval \<Rightarrow> jsval \<Rightarrow> jsval \<Rightarrow> cb_outcome \<times> event list" where
  "MysqlRedis_query L S this sql vals options_arg cb_arg =
     (let cb = cb_handler vals options_arg cb_arg;
          options = cb_options vals options_arg cb_arg;
          key = derive_key L this options sql vals;
          tr = hash_events this options sql vals @ [MysqlQuery sql (bind_params vals)];
          ex = resolved_expire this options
      in case resolved_mode this options of
           SKIP \<Rightarrow>
             (case mysqlConn_query_cb S sql (bind_params vals) of
                (mysqlErr, mysqlResult, flds) \<Rightarrow>
                  if truthy mysqlErr then (Invoke cb [mysqlErr, JNull], tr)
                  else (Invoke cb [mysqlErr, mysqlResult, flds], tr))
         | REFRESH \<Rightarrow>
             (case mysqlConn_query_cb S sql (bind_params vals) of
                (mysqlErr, mysqlResult, flds) \<Rightarrow>
                  if truthy mysqlErr then (Invoke cb [mysqlErr, JNull], tr)
                  else (Invoke cb [mysqlErr, mysqlResult, flds],
                        tr @ [RedisSet key (JSON_stringify mysqlResult) (JStr ''EX'') ex]))
         | CACHE \<Rightarrow>
             (case mysqlConn_query_cb S sql (bind_params vals) of
                (mysqlErr, mysqlResult, flds) \<Rightarrow>
                  if truthy mysqlErr then
                    (case redisClient_get_cb S key of
                       (redisErr, redisResult) \<Rightarrow>
                         (if truthy redisErr then Invoke cb [redisErr, JNull, cacheHit key]
                          else if redisResult = JNull then Invoke cb [JNull, JNull, cacheHit key]
                          else (case JSON_parse L redisResult of
                                  Inl exn \<Rightarrow> Uncaught exn
                                | Inr d \<Rightarrow> Invoke cb [JNull, d, cacheHit key]),
                          tr @ [RedisGet key]))
                  else (Invoke cb [mysqlErr, mysqlResult, flds],
                        tr @ [RedisSet key (JSON_stringify mysqlResult) (JStr ''EX'') ex])))"

section \<open>The promise adapter\<close>

text \<open>
  A promise is settled by the first call of \<^verbatim>\<open>resolve\<close> or \<^verbatim>\<open>reject\<close>; later calls
  change nothing. \<open>None\<close> is a promise that is still pending.
\<close>

datatype settlement = Resolve jsval | Reject jsval

definition settle :: "settlement \<Rightarrow> settlement option \<Rightarrow> settlement option" where
  "settle x st = (case st of None \<Rightarrow> Some x | Some y \<Rightarrow> Some y)"

text \<open>Line 158: \<^verbatim>\<open>options = options || (!Array.isArray(values) ? values : null)\<close>.\<close>

definition async_options :: "jsval \<Rightarrow> jsval \<Rightarrow> jsval" where
  "async_options vals options_arg = js_or options_arg (if \<not> is_array vals then vals else JNull)"

text \<open>
  The block \<^verbatim>\<open>try { redisResult = await get(key); resolve([JSON.parse(redisResult),
  [{cacheHit: key}]]) } catch (redisErr) { reject(redisErr) }\<close>, which the source has twice
  (lines 210 to 221 and 233 to 244). A \<^verbatim>\<open>SyntaxError\<close> of \<^verbatim>\<open>JSON.parse\<close> is caught by
  the same \<^verbatim>\<open>catch\<close>.
\<close>

definition read_cache ::
  "libs \<Rightarrow> stores \<Rightarrow> jsval \<Rightarrow> settlement option \<times> event list \<Rightarrow> settlement option \<times> event list" where
  "read_cache L S key st =
     (case cache_get S key of
        Inl msg \<Rightarrow> (settle (Reject (JErr msg)) (fst st), snd st @ [RedisGet key])
      | Inr redisResult \<Rightarrow>
          (case JSON_parse L redisResult of
             Inl exn \<Rightarrow> (settle (Reject exn) (fst st), snd st @ [RedisGet key])
           | Inr d \<Rightarrow> (settle (Resolve (JArr [d, cacheHit key])) (fst st), snd st @ [RedisGet key])))"

text \<open>
  \<^verbatim>\<open>MysqlRedisAsync.query(sql, values, options)\<close> (index.js, lines 154 to 249). The awaited
  primary query fulfils with the array \<^verbatim>\<open>[rows, fields]\<close> or rejects; a rejection of any
  awaited promise inside a \<^verbatim>\<open>try\<close> continues in its \<^verbatim>\<open>catch\<close>.
\<close>

definition MysqlRedisAsync_query ::
  "libs \<Rightarrow> stores \<Rightarrow> cacheOptions \<Rightarrow> string \<Rightarrow> jsval \<Rightarrow> jsval \<Rightarrow> settlement option \<times> event list" where
  "MysqlRedisAsync_query L S this sql vals options_arg =
     (let options = async_options vals options_arg;
          key = derive_key L this options sql vals;
          tr = hash_events this options sql vals @ [MysqlQuery sql (bind_params vals)];
          ex = resolved_expire this options
      in case resolved_mode this options of
           SKIP \<Rightarrow>
             (case primary_query S sql (bind_params vals) of
                Inl mysqlErr \<Rightarrow> (settle (Reject (JErr mysqlErr)) None, tr)
              | Inr (mysqlResult, flds) \<Rightarrow>
                  (settle (Resolve (JArr [mysqlResult, flds])) None, tr))
         | REFRESH \<Rightarrow>
             (case primary_query S sql (bind_params vals) of
                Inl mysqlErr \<Rightarrow> (settle (Reject (JErr mysqlErr)) None, tr)
              | Inr (mysqlResult, flds) \<Rightarrow>
                  (case cache_set S key (JSON_stringify mysqlResult) (JStr ''EX'') ex of
                     Inl mysqlErr \<Rightarrow>
                       (settle (Reject (JErr mysqlErr)) None,
                        tr @ [RedisSet key (JSON_stringify mysqlResult) (JStr ''EX'') ex])
                   | Inr ack \<Rightarrow>
                       (settle (Resolve (JArr [mysqlResult, flds])) None,
                        tr @ [RedisSet key (JSON_stringify mysqlResult) (JStr ''EX'') ex])))
         | CACHE \<Rightarrow>
             (case primary_query S sql (bind_params vals) of
                Inl mysqlErr \<Rightarrow> read_cache L S key (None, tr)
              | Inr (mysqlResult, flds) \<Rightarrow>
                  (let st1 = (if \<not> truthy (js_and mysqlResult flds)
                              then read_cache L S key (None, tr) else (None, tr));
                       tr2 = snd st1 @ [RedisSet key (JSON_stringify mysqlResult) (JStr ''EX'') ex]
                   in case cache_set S key (JSON_stringify mysqlResult) (JStr ''EX'') ex of
                        Inl mysqlErr \<Rightarrow> read_cache L S key (fst st1, tr2)
                      | Inr ack \<Rightarrow>
                          (settle (Resolve (JArr [mysqlResult, flds])) (fst st1), tr2))))"

section \<open>Comparing the two adapters\<close>

text \<open>The argument at a position of a call; a missing argument is \<^verbatim>\<open>undefined\<close>.\<close>

definition arg :: "jsval list \<Rightarrow> nat \<Rightarrow> jsval" where
  "arg args i = (if i < length args then args ! i else JUndefined)"

text \<open>
  The outcome of the completion adapter and of the promise adapter are the same when both
  deliver the same error (a handler called with a truthy first argument, a promise rejected
  with it) or the same payload and metadata (a handler called with a falsy first argument, a
  promise fulfilled with the pair).
\<close>

fun same_outcome :: "cb_outcome \<Rightarrow> settlement option \<Rightarrow> bool" where
  "same_outcome (Invoke cb args) (Some (Reject e)) = (truthy (arg args 0) \<and> arg args 0 = e)"
| "same_outcome (Invoke cb args) (Some (Resolve v)) =
     (\<not> truthy (arg args 0) \<and> v = JArr [arg args 1, arg args 2])"
| "same_outcome out st = False"

text \<open>The metadata delivered: the third argument of the handler, the second element of the
  array a promise is fulfilled with. A rejection carries the error alone.\<close>

fun cb_metadata :: "cb_outcome \<Rightarrow> jsval option" where
  "cb_metadata (Invoke cb args) = Some (arg args 2)"
| "cb_metadata (Uncaught e) = None"

fun promise_metadata :: "settlement option \<Rightarrow> jsval option" where
  "promise_metadata (Some (Resolve (JArr [d, m]))) = Some m"
| "promise_metadata st = None"

text \<open>
  The completion-style call that passes the same \<^verbatim>\<open>sql\<close>, \<^verbatim>\<open>values\<close> and \<^verbatim>\<open>options\<close> as
  the promise-style call \<^verbatim>\<open>query(sql, values, options)\<close>, with the handler \<^verbatim>\<open>f\<close>:
  \<^verbatim>\<open>query(sql, values, options, f)\<close>, and \<^verbatim>\<open>query(sql, values, f)\<close> when the options are
  omitted.
\<close>

definition completion_call ::
  "libs \<Rightarrow> stores \<Rightarrow> cacheOptions \<Rightarrow> string \<Rightarrow> jsval \<Rightarrow> jsval \<Rightarrow> string \<Rightarrow> cb_outcome \<times> event list" where
  "completion_call L S this sql vals po f =
     (if po = JUndefined then MysqlRedis_query L S this sql vals (JFun f) JUndefined
      else MysqlRedis_query L S this sql vals po (JFun f))"

text \<open>Two option values that resolve every option alike: equal, or both without options.\<close>

definition same_resolution :: "jsval \<Rightarrow> jsval \<Rightarrow> bool" where
  "same_resolution a b =
     (a = b \<or> ((\<not> truthy a \<or> a = JObj []) \<and> (\<not> truthy b \<or> b = JObj [])))"

text \<open>The key, the mode and the expiry of a call, for each adapter's selection of options.\<close>

abbreviation cb_key :: "libs \<Rightarrow> cacheOptions \<Rightarrow> string \<Rightarrow> jsval \<Rightarrow> jsval \<Rightarrow> jsval \<Rightarrow> jsval" where
  "cb_key L this sql vals oa ca \<equiv> derive_key L this (cb_options vals oa ca) sql vals"

abbreviation cb_mode :: "cacheOptions \<Rightarrow> jsval \<Rightarrow> jsval \<Rightarrow> jsval \<Rightarrow> mode" where
  "cb_mode this vals oa ca \<equiv> resolved_mode this (cb_options vals oa ca)"

abbreviation async_key :: "libs \<Rightarrow> cacheOptions \<Rightarrow> string \<Rightarrow> jsval \<Rightarrow> jsval \<Rightarrow> jsval" where
  "async_key L this sql vals po \<equiv> derive_key L this (async_options vals po) sql vals"

abbreviation async_mode :: "cacheOptions \<Rightarrow> jsval \<Rightarrow> jsval \<Rightarrow> mode" where
  "async_mode this vals po \<equiv> resolved_mode this (async_options vals po)"

abbreviation async_expire :: "cacheOptions \<Rightarrow> jsval \<Rightarrow> jsval \<Rightarrow> jsval" where
  "async_expire this vals po \<equiv> resolved_expire this (async_options vals po)"

section \<open>Sample calls\<close>

text \<open>
  Concrete libraries and stores for evaluating the model. The sample calls use the
  \<^verbatim>\<open>full\<close> strategy, so the fingerprints are never computed; \<open>JSON_parse_text\<close> knows the two
  texts the samples store.
\<close>

definition sample_libs :: libs where
  "sample_libs =
     \<lparr>fingerprint32 = (\<lambda>s. JStr s), fingerprint64 = (\<lambda>s. JStr s), parseInt = (\<lambda>v. v),
      toString64 = ToString, blake2b512_base64 = (\<lambda>s. s),
      JSON_parse_text = (\<lambda>s. if s = ''null'' then Inr JNull
                              else if s = ''[]'' then Inr (JArr [])
                              else Inl ''Unexpected token'')\<rparr>"

text \<open>Stores that give the same answer to every request.\<close>

definition sample_stores ::
  "string + jsval \<times> jsval \<Rightarrow> string + jsval \<Rightarrow> string + jsval \<Rightarrow> stores" where
  "sample_stores p g s =
     \<lparr>primary_query = (\<lambda>sql vals. p), cache_get = (\<lambda>key. g), cache_set = (\<lambda>key v m e. s)\<rparr>"

definition full_options :: jsval where
  "full_options = JObj [(''hashType'', HashTypes_full)]"

definition full_skip_options :: jsval where
  "full_skip_options = JObj [(''hashType'', HashTypes_full), (''caching'', Caching_SKIP)]"

definition full_refresh_options :: jsval where
  "full_refresh_options = JObj [(''hashType'', HashTypes_full), (''caching'', Caching_REFRESH)]"

definition literal_options :: jsval where
  "literal_options = JObj [(''hash'', JStr ''countries'')]"

section \<open>The shape of a serialised value\<close>

text \<open>
  The values that \<^verbatim>\<open>JSON.stringify\<close> writes without loss: \<^verbatim>\<open>null\<close>, booleans, numbers,
  strings, and arrays and plain objects of such values. \<^verbatim>\<open>undefined\<close>, \<open>NaN\<close>, functions
  and \<^verbatim>\<open>Error\<close> objects are not among them.
\<close>

fun json_value :: "jsval \<Rightarrow> bool"
  and json_elems :: "jsval list \<Rightarrow> bool"
  and json_props :: "(string \<times> jsval) list \<Rightarrow> bool" where
  "json_value JUndefined = False"
| "json_value JNull = True"
| "json_value (JBool b) = True"
| "json_value (JNum n) = True"
| "json_value JNaN = False"
| "json_value (JStr s) = True"
| "json_value (JArr xs) = json_elems xs"
| "json_value (JObj kvs) = json_props kvs"
| "json_value (JFun src) = False"
| "json_value (JErr msg) = False"
| "json_elems [] = True"
| "json_elems (x # xs) = (json_value x \<and> json_elems xs)"
| "json_props [] = True"
| "json_props (kv # kvs) = (json_value (snd kv) \<and> json_props kvs)"

text \<open>What may follow a value inside a JSON text: nothing, or a comma or closing bracket.\<close>

definition delim :: "string \<Rightarrow> bool" where
  "delim r = (case r of [] \<Rightarrow> True | c # cs \<Rightarrow> c \<in> set '',]}'')"

definition is_digit :: "char \<Rightarrow> bool" where
  "is_digit c = (c \<in> set ''0123456789'')"

text \<open>The characters of a number text.\<close>

definition numchar :: "char \<Rightarrow> bool" where
  "numchar c = (c \<in> set ''0123456789.e+-'')"


text \<open>
  A scan of a JSON text from the left: whether the position is outside a string, inside one,
  or behind a backslash inside one, and how many brackets are open outside strings.
  \<open>above m l d t\<close>: scanning \<open>t\<close> from the state \<open>l\<close> at depth \<open>d\<close> meets no
  backslash outside a string and never comes outside a string at a depth below \<open>m\<close>.
\<close>

datatype lex = Out | In | Esc

fun lex_step :: "lex \<Rightarrow> char \<Rightarrow> lex" where
  "lex_step Out c = (if c = CHR 0x22 then In else Out)"
| "lex_step In c = (if c = CHR 0x5C then Esc else if c = CHR 0x22 then Out else In)"
| "lex_step Esc c = In"

fun depth_step :: "lex \<Rightarrow> char \<Rightarrow> int" where
  "depth_step Out c =
     (if c = CHR ''['' \<or> c = CHR ''{'' then 1
      else if c = CHR '']'' \<or> c = CHR ''}'' then - 1 else 0)"
| "depth_step In c = 0"
| "depth_step Esc c = 0"

fun lex_run :: "lex \<Rightarrow> string \<Rightarrow> lex" where
  "lex_run l [] = l"
| "lex_run l (c # cs) = lex_run (lex_step l c) cs"

fun depth_run :: "lex \<Rightarrow> int \<Rightarrow> string \<Rightarrow> int" where
  "depth_run l d [] = d"
| "depth_run l d (c # cs) = depth_run (lex_step l c) (d + depth_step l c) cs"

fun above :: "int \<Rightarrow> lex \<Rightarrow> int \<Rightarrow> string \<Rightarrow> bool" where
  "above m l d [] = True"
| "above m l d (c # cs) =
     (\<not> (l = Out \<and> c = CHR 0x5C) \<and>
      (lex_step l c \<noteq> Out \<or> m \<le> d + depth_step l c) \<and>
      above m (lex_step l c) (d + depth_step l c) cs)"

definition closed_text :: "string \<Rightarrow> bool" where
  "closed_text t = (lex_run Out t = Out \<and> depth_run Out 0 t = 0 \<and> above 0 Out 0 t)"


text \<open>Plain characters: no quote, backslash or bracket.\<close>

definition plain :: "char \<Rightarrow> bool" where
  "plain c = (c \<notin> set [CHR 0x22, CHR 0x5C, CHR ''['', CHR '']'', CHR ''{'', CHR ''}''])"


section \<open>Properties\<close>

subsection \<open>Evaluation and resolution lemmas\<close>

lemmas option_defs =
  opt_or_def js_or_def js_and_def literal_key_def cb_options_def cb_handler_def
  async_options_def resolved_mode_def resolved_expire_def switch_caching_def bind_params_def
  Caching_CACHE_def Caching_SKIP_def Caching_REFRESH_def
  HashTypes_farmhash32_def HashTypes_farmhash64_def HashTypes_blake2b512_def HashTypes_full_def
  defaultCacheOptions_def full_options_def full_skip_options_def full_refresh_options_def
  literal_options_def

lemmas key_defs = derive_key_def payload_def hash_def js_plus_def JSON_stringify_def Let_def

lemmas store_defs =
  sample_stores_def sample_libs_def mysqlConn_query_cb_def redisClient_get_cb_def
  JSON_parse_def read_cache_def settle_def hash_events_def cacheHit_def

lemma filter_cache_hash_events:
  "filter is_cache_event (hash_events this options sql vals) = []"
  by (simp add: hash_events_def)

lemma js_plus_JStr: "js_plus (JStr p) v = JStr (p @ ToString v)"
  by (simp add: js_plus_def)








lemma opt_or_empty: "\<not> truthy a \<or> a = JObj [] \<Longrightarrow> opt_or a name d = d"
  by (auto simp: opt_or_def js_or_def js_and_def)

lemma literal_key_empty: "\<not> truthy a \<or> a = JObj [] \<Longrightarrow> \<not> truthy (literal_key a)"
  by (auto simp: literal_key_def js_and_def)

lemma same_resolution_opt_or: "same_resolution a b \<Longrightarrow> opt_or a name d = opt_or b name d"
  unfolding same_resolution_def by (auto simp: opt_or_empty)

lemma same_resolution_key:
  "same_resolution a b \<Longrightarrow> derive_key L this a sql vals = derive_key L this b sql vals"
  unfolding same_resolution_def
  by (auto simp: derive_key_def Let_def opt_or_empty literal_key_empty)

lemma forms_same_resolution:
  "po = JUndefined \<Longrightarrow> same_resolution (cb_options vals (JFun f) JUndefined) (async_options vals po)"
  "truthy po \<or> is_array vals \<Longrightarrow>
     same_resolution (cb_options vals po (JFun f)) (async_options vals po)"
  by (auto simp: same_resolution_def cb_options_def async_options_def js_or_def)

lemma forms_handler:
  "cb_handler vals (JFun f) JUndefined = JFun f" "cb_handler vals po (JFun f) = JFun f"
  by (simp_all add: cb_handler_def)

lemma agree_core:
  assumes r: "same_resolution (cb_options vals oa ca) (async_options vals po)"
    and p: "case primary_query S sql (bind_params vals) of
             Inl msg \<Rightarrow> async_mode this vals po \<noteq> CACHE \<or>
               (case cache_get S (async_key L this sql vals po) of
                  Inl msg' \<Rightarrow> True
                | Inr reply \<Rightarrow> (\<exists>d. JSON_parse L reply = Inr d))
           | Inr (rows, flds) \<Rightarrow> async_mode this vals po = SKIP \<or>
               ((async_mode this vals po = CACHE \<longrightarrow> truthy rows \<and> truthy flds) \<and>
                (\<exists>ack. cache_set S (async_key L this sql vals po) (JSON_stringify rows)
                         (JStr ''EX'') (async_expire this vals po) = Inr ack))"
    and n: "JSON_parse_text L ''null'' = Inr JNull"
  shows "same_outcome (fst (MysqlRedis_query L S this sql vals oa ca))
           (fst (MysqlRedisAsync_query L S this sql vals po))"
proof -
  have k: "cb_key L this sql vals oa ca = async_key L this sql vals po"
    using r by (rule same_resolution_key)
  have m: "cb_mode this vals oa ca = async_mode this vals po"
    using r by (simp add: resolved_mode_def same_resolution_opt_or)
  have nn: "JSON_parse L JNull = Inr JNull"
    using n by (simp add: JSON_parse_def)
  show ?thesis
  proof (cases "primary_query S sql (bind_params vals)")
    case (Inl msg)
    with p k m nn show ?thesis
      by (cases "async_mode this vals po")
         (auto simp: MysqlRedis_query_def MysqlRedisAsync_query_def Let_def
           mysqlConn_query_cb_def redisClient_get_cb_def read_cache_def settle_def arg_def
           split: sum.splits)
  next
    case (Inr rf)
    obtain rows flds where rf: "rf = (rows, flds)"
      by (cases rf)
    with Inr p k m show ?thesis
      by (cases "async_mode this vals po")
         (auto simp: MysqlRedis_query_def MysqlRedisAsync_query_def Let_def
           mysqlConn_query_cb_def settle_def arg_def js_and_def split: sum.splits)
  qed
qed

lemma fallback_failure_cb:
  assumes "cb_mode this vals oa ca = CACHE"
    and "primary_query S sql (bind_params vals) = Inl msg"
    and "cache_get S (cb_key L this sql vals oa ca) = Inl msg'"
  shows "fst (MysqlRedis_query L S this sql vals oa ca) =
           Invoke (cb_handler vals oa ca) [JErr msg', JNull, cacheHit (cb_key L this sql vals oa ca)]"
  using assms
  by (simp add: MysqlRedis_query_def Let_def mysqlConn_query_cb_def redisClient_get_cb_def)

lemma fallback_failure_async:
  assumes "async_mode this vals po = CACHE"
    and "primary_query S sql (bind_params vals) = Inl msg"
    and "cache_get S (async_key L this sql vals po) = Inl msg'"
  shows "fst (MysqlRedisAsync_query L S this sql vals po) = Some (Reject (JErr msg'))"
  using assms
  by (simp add: MysqlRedisAsync_query_def Let_def read_cache_def settle_def)

lemma success_cb:
  assumes "primary_query S sql (bind_params vals) = Inr (rows, flds)"
  shows "fst (MysqlRedis_query L S this sql vals oa ca) =
           Invoke (cb_handler vals oa ca) [JNull, rows, flds]"
  using assms
  by (simp add: MysqlRedis_query_def Let_def mysqlConn_query_cb_def split: mode.splits)

lemma guard_async:
  assumes "async_mode this vals po = CACHE"
    and "primary_query S sql (bind_params vals) = Inr (rows, flds)"
    and "\<not> (truthy rows \<and> truthy flds)"
  shows "fst (MysqlRedisAsync_query L S this sql vals po) =
           (case cache_get S (async_key L this sql vals po) of
              Inl msg \<Rightarrow> Some (Reject (JErr msg))
            | Inr reply \<Rightarrow>
                (case JSON_parse L reply of
                   Inl exn \<Rightarrow> Some (Reject exn)
                 | Inr d \<Rightarrow>
                     Some (Resolve (JArr [d, JArr [JObj [(''cacheHit'',
                       async_key L this sql vals po)]]]))))"
    and "snd (MysqlRedisAsync_query L S this sql vals po) =
           hash_events this (async_options vals po) sql vals @
           [MysqlQuery sql (bind_params vals),
            RedisGet (async_key L this sql vals po),
            RedisSet (async_key L this sql vals po) (JSON_stringify rows) (JStr ''EX'')
              (async_expire this vals po)] @
           (case cache_set S (async_key L this sql vals po) (JSON_stringify rows) (JStr ''EX'')
                   (async_expire this vals po) of
              Inl msg \<Rightarrow> [RedisGet (async_key L this sql vals po)]
            | Inr ack \<Rightarrow> [])"
  using assms
  by (auto simp: MysqlRedisAsync_query_def Let_def read_cache_def settle_def js_and_def
      cacheHit_def split: sum.splits)

lemma agree_form:
  assumes r: "same_resolution (cb_options vals oa ca) (async_options vals po)"
    and h: "cb_handler vals oa ca = JFun f"
  shows "((case primary_query S sql (bind_params vals) of
             Inl msg \<Rightarrow> async_mode this vals po \<noteq> CACHE \<or>
               (case cache_get S (async_key L this sql vals po) of
                  Inl msg' \<Rightarrow> True
                | Inr reply \<Rightarrow> (\<exists>d. JSON_parse L reply = Inr d))
           | Inr (rows, flds) \<Rightarrow> async_mode this vals po = SKIP \<or>
               ((async_mode this vals po = CACHE \<longrightarrow> truthy rows \<and> truthy flds) \<and>
                (\<exists>ack. cache_set S (async_key L this sql vals po) (JSON_stringify rows)
                         (JStr ''EX'') (async_expire this vals po) = Inr ack)))
          \<and> JSON_parse_text L ''null'' = Inr JNull \<longrightarrow>
          same_outcome (fst (MysqlRedis_query L S this sql vals oa ca))
            (fst (MysqlRedisAsync_query L S this sql vals po)))
    \<and> (\<forall>msg msg'. async_mode this vals po = CACHE \<and>
          primary_query S sql (bind_params vals) = Inl msg \<and>
          cache_get S (async_key L this sql vals po) = Inl msg' \<longrightarrow>
          fst (MysqlRedis_query L S this sql vals oa ca) =
            Invoke (JFun f)
              [JErr msg', JNull, JArr [JObj [(''cacheHit'', async_key L this sql vals po)]]] \<and>
          fst (MysqlRedisAsync_query L S this sql vals po) = Some (Reject (JErr msg')))
    \<and> (\<forall>rows flds. async_mode this vals po = CACHE \<and>
          primary_query S sql (bind_params vals) = Inr (rows, flds) \<and>
          \<not> (truthy rows \<and> truthy flds) \<longrightarrow>
          fst (MysqlRedis_query L S this sql vals oa ca) = Invoke (JFun f) [JNull, rows, flds] \<and>
          fst (MysqlRedisAsync_query L S this sql vals po) =
            (case cache_get S (async_key L this sql vals po) of
               Inl msg \<Rightarrow> Some (Reject (JErr msg))
             | Inr reply \<Rightarrow>
                 (case JSON_parse L reply of
                    Inl exn \<Rightarrow> Some (Reject exn)
                  | Inr d \<Rightarrow>
                      Some (Resolve (JArr [d, JArr [JObj [(''cacheHit'',
                        async_key L this sql vals po)]]])))))"
proof -
  have k: "cb_key L this sql vals oa ca = async_key L this sql vals po"
    using r by (rule same_resolution_key)
  have m: "cb_mode this vals oa ca = async_mode this vals po"
    using r by (simp add: resolved_mode_def same_resolution_opt_or)
  have "same_outcome (fst (MysqlRedis_query L S this sql vals oa ca))
           (fst (MysqlRedisAsync_query L S this sql vals po))"
    if "(case primary_query S sql (bind_params vals) of
             Inl msg \<Rightarrow> async_mode this vals po \<noteq> CACHE \<or>
               (case cache_get S (async_key L this sql vals po) of
                  Inl msg' \<Rightarrow> True
                | Inr reply \<Rightarrow> (\<exists>d. JSON_parse L reply = Inr d))
           | Inr (rows, flds) \<Rightarrow> async_mode this vals po = SKIP \<or>
               ((async_mode this vals po = CACHE \<longrightarrow> truthy rows \<and> truthy flds) \<and>
                (\<exists>ack. cache_set S (async_key L this sql vals po) (JSON_stringify rows)
                         (JStr ''EX'') (async_expire this vals po) = Inr ack)))
          \<and> JSON_parse_text L ''null'' = Inr JNull"
    using r that [THEN conjunct1] that [THEN conjunct2] by (rule agree_core)
  moreover have "fst (MysqlRedis_query L S this sql vals oa ca) =
            Invoke (JFun f)
              [JErr msg', JNull, JArr [JObj [(''cacheHit'', async_key L this sql vals po)]]] \<and>
          fst (MysqlRedisAsync_query L S this sql vals po) = Some (Reject (JErr msg'))"
    if "async_mode this vals po = CACHE \<and>
               primary_query S sql (bind_params vals) = Inl msg \<and>
               cache_get S (async_key L this sql vals po) = Inl msg'" for msg msg'
    using that fallback_failure_cb [of this vals oa ca S sql msg L msg']
      fallback_failure_async [of this vals po S sql msg L msg']
    by (simp add: k m h cacheHit_def)
  moreover have "fst (MysqlRedis_query L S this sql vals oa ca) = Invoke (JFun f) [JNull, rows, flds] \<and>
          fst (MysqlRedisAsync_query L S this sql vals po) =
            (case cache_get S (async_key L this sql vals po) of
               Inl msg \<Rightarrow> Some (Reject (JErr msg))
             | Inr reply \<Rightarrow>
                 (case JSON_parse L reply of
                    Inl exn \<Rightarrow> Some (Reject exn)
                  | Inr d \<Rightarrow>
                      Some (Resolve (JArr [d, JArr [JObj [(''cacheHit'',
                        async_key L this sql vals po)]]]))))"
    if "async_mode this vals po = CACHE \<and>
          primary_query S sql (bind_params vals) = Inr (rows, flds) \<and>
          \<not> (truthy rows \<and> truthy flds)" for rows flds
    using that success_cb [of S sql vals rows flds L this oa ca]
      guard_async(1) [of this vals po S sql rows flds L]
    by (simp add: h)
  ultimately show ?thesis
    by blast
qed

subsection \<open>Serialised values are bracketed and uniquely readable\<close>

lemma lex_run_append: "lex_run l (a @ b) = lex_run (lex_run l a) b"
  by (induction a arbitrary: l) auto

lemma depth_run_append:
  "depth_run l d (a @ b) = depth_run (lex_run l a) (depth_run l d a) b"
  by (induction a arbitrary: l d) auto

lemma above_append:
  "above m l d (a @ b) = (above m l d a \<and> above m (lex_run l a) (depth_run l d a) b)"
  by (induction a arbitrary: l d) auto

lemma depth_run_shift: "depth_run l (d + k) t = depth_run l d t + k"
proof (induction t arbitrary: l d)
  case Nil
  show ?case by simp
next
  case (Cons c cs)
  have e: "d + k + depth_step l c = (d + depth_step l c) + k"
    by simp
  show ?case
    by (simp only: depth_run.simps e Cons.IH)
qed

lemma above_shift: "above (m + k) l (d + k) t = above m l d t"
proof (induction t arbitrary: l d)
  case Nil
  show ?case by simp
next
  case (Cons c cs)
  have e: "d + k + depth_step l c = (d + depth_step l c) + k"
    by simp
  show ?case
    by (simp only: above.simps e Cons.IH add_le_cancel_right)
qed

lemma above_mono: "above m l d t \<Longrightarrow> m' \<le> m \<Longrightarrow> above m' l d t"
  by (induction t arbitrary: l d) auto

lemma closed_depth: "closed_text t \<Longrightarrow> depth_run Out d t = d"
  using depth_run_shift [of Out 0 d t] by (simp add: closed_text_def)

lemma closed_above: "closed_text t \<Longrightarrow> above d Out d t"
  using above_shift [of 0 d Out 0 t] by (simp add: closed_text_def)

lemma closed_lex: "closed_text t \<Longrightarrow> lex_run Out t = Out"
  by (simp add: closed_text_def)

lemma closed_append: "closed_text a \<Longrightarrow> closed_text b \<Longrightarrow> closed_text (a @ b)"
  by (simp add: closed_text_def lex_run_append depth_run_append above_append)

lemma plain_closed: "list_all plain t \<Longrightarrow> closed_text t"
proof -
  have "list_all plain t \<Longrightarrow> lex_run Out t = Out \<and> depth_run Out d t = d \<and> above d Out d t" for d
    by (induction t) (auto simp: plain_def)
  then show "list_all plain t \<Longrightarrow> closed_text t"
    by (simp add: closed_text_def)
qed

lemma digit_char_set: "k < 16 \<Longrightarrow> digit_char k \<in> set ''0123456789abcdef''"
  unfolding digit_char_def by (rule nth_mem) simp

lemma digit_char_plain: "k < 16 \<Longrightarrow> plain (digit_char k)"
  using digit_char_set [of k] by (auto simp: plain_def)

lemma digit_char_inj: "a < 16 \<Longrightarrow> b < 16 \<Longrightarrow> digit_char a = digit_char b \<Longrightarrow> a = b"
proof -
  have "distinct ''0123456789abcdef''" by simp
  then show "a < 16 \<Longrightarrow> b < 16 \<Longrightarrow> digit_char a = digit_char b \<Longrightarrow> a = b"
    unfolding digit_char_def by (simp add: nth_eq_iff_index_eq)
qed

lemma digit_char_digit: "k < 10 \<Longrightarrow> is_digit (digit_char k)"
proof -
  assume k: "k < 10"
  then have "''0123456789'' ! k \<in> set ''0123456789''"
    by (intro nth_mem) simp
  moreover from k have "(''0123456789'' @ ''abcdef'') ! k = ''0123456789'' ! k"
    by (simp only: nth_append) simp
  ultimately show ?thesis
    by (simp add: is_digit_def digit_char_def)
qed

lemma show_nat_digits: "list_all is_digit (show_nat n) \<and> show_nat n \<noteq> []"
proof (induction n rule: show_nat.induct)
  case (1 n)
  show ?case
  proof (cases "n < 10")
    case True
    then show ?thesis by (subst (1 2) show_nat.simps) (simp add: digit_char_digit)
  next
    case False
    with 1 show ?thesis
      by (subst (1 2) show_nat.simps) (simp add: digit_char_digit)
  qed
qed

lemma show_nat_inj: "show_nat n = show_nat m \<Longrightarrow> n = m"
proof (induction n arbitrary: m rule: show_nat.induct)
  case (1 n)
  have ne: "show_nat k \<noteq> []" for k
    using show_nat_digits [of k] by simp
  show ?case
  proof (cases "n < 10")
    case n: True
    show ?thesis
    proof (cases "m < 10")
      case True
      with n 1(2) have "digit_char n = digit_char m"
        by (simp add: show_nat.simps [of n] show_nat.simps [of m])
      with n True show ?thesis
        by (intro digit_char_inj) simp_all
    next
      case False
      with n 1(2) have "[digit_char n] = show_nat (m div 10) @ [digit_char (m mod 10)]"
        by (simp add: show_nat.simps [of n] show_nat.simps [of m])
      with ne [of "m div 10"] show ?thesis
        by (cases "show_nat (m div 10)") simp_all
    qed
  next
    case n: False
    show ?thesis
    proof (cases "m < 10")
      case True
      with n 1(2) have "show_nat (n div 10) @ [digit_char (n mod 10)] = [digit_char m]"
        by (simp add: show_nat.simps [of n] show_nat.simps [of m])
      with ne [of "n div 10"] show ?thesis
        by (cases "show_nat (n div 10)") simp_all
    next
      case False
      with n 1(2) have "show_nat (n div 10) @ [digit_char (n mod 10)]
          = show_nat (m div 10) @ [digit_char (m mod 10)]"
        by (simp add: show_nat.simps [of n] show_nat.simps [of m])
      then have a: "show_nat (n div 10) = show_nat (m div 10)"
        and b: "digit_char (n mod 10) = digit_char (m mod 10)"
        by simp_all
      from a n have "n div 10 = m div 10"
        by (intro 1(1)) simp_all
      moreover from b have "n mod 10 = m mod 10"
        by (intro digit_char_inj) (simp_all add: less_trans [of _ 10 16])
      ultimately show ?thesis
        by (metis div_mult_mod_eq)
    qed
  qed
qed

lemma takeWhile_eq_replicate:
  "takeWhile (\<lambda>c. c = a) xs = replicate (length (takeWhile (\<lambda>c. c = a) xs)) a"
  by (induction xs) auto

lemma strip_zeros_pad:
  "ds = strip_zeros ds @ replicate (length ds - length (strip_zeros ds)) CHR ''0''"
proof -
  let ?P = "\<lambda>c. c = CHR ''0''"
  have "rev ds = takeWhile ?P (rev ds) @ dropWhile ?P (rev ds)"
    by simp
  then have "ds = rev (dropWhile ?P (rev ds)) @ rev (takeWhile ?P (rev ds))"
    by (metis rev_append rev_rev_ident)
  moreover have "rev (takeWhile ?P (rev ds)) = replicate (length (takeWhile ?P (rev ds))) CHR ''0''"
    using takeWhile_eq_replicate [of "CHR ''0''" "rev ds"] by (metis rev_replicate)
  moreover have "length (takeWhile ?P (rev ds)) = length ds - length (strip_zeros ds)"
  proof -
    have "length (takeWhile ?P (rev ds)) + length (dropWhile ?P (rev ds)) = length ds"
      by (metis length_append length_rev takeWhile_dropWhile_id)
    then show ?thesis
      by (simp add: strip_zeros_def)
  qed
  ultimately show ?thesis
    by (simp add: strip_zeros_def)
qed

lemma strip_zeros_set: "set (strip_zeros ds) \<subseteq> set ds"
  using set_dropWhileD [of _ "\<lambda>c. c = CHR ''0''" "rev ds"] by (auto simp: strip_zeros_def)

lemma strip_zeros_hd: "ds \<noteq> [] \<Longrightarrow> hd ds \<noteq> CHR ''0'' \<Longrightarrow> strip_zeros ds \<noteq> []"
proof
  assume ne: "ds \<noteq> []" and h: "hd ds \<noteq> CHR ''0''" and e: "strip_zeros ds = []"
  from e strip_zeros_pad [of ds] have "ds = replicate (length ds) CHR ''0''"
    by simp
  with ne have "hd ds = CHR ''0''"
    by (metis hd_replicate replicate_empty)
  with h show False by simp
qed


lemma is_digit_numchar: "is_digit c \<Longrightarrow> numchar c"
  by (auto simp: is_digit_def numchar_def)

lemma is_digit_plain: "is_digit c \<Longrightarrow> plain c"
  by (auto simp: is_digit_def plain_def)

lemma is_digit_not_e: "is_digit c \<Longrightarrow> c \<noteq> CHR ''e'' \<and> c \<noteq> CHR ''.'' \<and> c \<noteq> CHR ''-''"
  by (auto simp: is_digit_def)

lemma digit_char_0: "digit_char 0 = CHR ''0''"
  by (simp add: digit_char_def)

lemma show_nat_hd_nonzero: "0 < n \<Longrightarrow> hd (show_nat n) \<noteq> CHR ''0''"
proof (induction n rule: show_nat.induct)
  case (1 n)
  show ?case
  proof (cases "n < 10")
    case True
    with 1(2) have "digit_char n \<noteq> digit_char 0"
      using digit_char_inj [of n 0] by auto
    with True show ?thesis
      by (simp add: show_nat.simps [of n] digit_char_0)
  next
    case False
    then have "0 < n div 10"
      by (simp add: div_greater_zero_iff)
    with False 1(1) have "hd (show_nat (n div 10)) \<noteq> CHR ''0''"
      by simp
    moreover have "show_nat (n div 10) \<noteq> []"
      using show_nat_digits [of "n div 10"] by simp
    ultimately show ?thesis
      using False by (simp add: show_nat.simps [of n])
  qed
qed

text \<open>The parts of the exponent notation of a positive number.\<close>

lemma exp_text_parts:
  assumes "0 < n"
  shows "\<exists>c t. strip_zeros (show_nat n) = c # t \<and> is_digit c \<and> list_all is_digit t
    \<and> exp_text n = c # (if t = [] then [] else CHR ''.'' # t) @ ''e+''
        @ show_nat (length (show_nat n) - 1)"
proof -
  have ne: "show_nat n \<noteq> []" and dg: "list_all is_digit (show_nat n)"
    using show_nat_digits [of n] by simp_all
  from ne show_nat_hd_nonzero [OF assms] have "strip_zeros (show_nat n) \<noteq> []"
    by (rule strip_zeros_hd)
  then obtain c t where ct: "strip_zeros (show_nat n) = c # t"
    by (cases "strip_zeros (show_nat n)") auto
  with strip_zeros_set [of "show_nat n"] dg have "is_digit c" "list_all is_digit t"
    by (auto simp: list_all_iff)
  with ct show ?thesis
    by (simp add: exp_text_def Let_def)
qed

lemma e_split:
  assumes "CHR ''e'' \<notin> set a" and "CHR ''e'' \<notin> set b" and "a @ CHR ''e'' # x = b @ CHR ''e'' # y"
  shows "a = b \<and> x = y"
  using assms
proof (induction a arbitrary: b)
  case Nil
  then show ?case by (cases b) auto
next
  case (Cons c a)
  then show ?case by (cases b) auto
qed

lemma exp_text_inj:
  assumes n: "0 < n" and m: "0 < m" and e: "exp_text n = exp_text m"
  shows "n = m"
proof -
  from exp_text_parts [OF n] obtain c t where
    p: "strip_zeros (show_nat n) = c # t" "is_digit c" "list_all is_digit t"
      "exp_text n = c # (if t = [] then [] else CHR ''.'' # t) @ ''e+''
        @ show_nat (length (show_nat n) - 1)"
    by blast
  from exp_text_parts [OF m] obtain c' t' where
    q: "strip_zeros (show_nat m) = c' # t'" "is_digit c'" "list_all is_digit t'"
      "exp_text m = c' # (if t' = [] then [] else CHR ''.'' # t') @ ''e+''
        @ show_nat (length (show_nat m) - 1)"
    by blast
  let ?M = "if t = [] then [] else CHR ''.'' # t"
  let ?M' = "if t' = [] then [] else CHR ''.'' # t'"
  have ne: "CHR ''e'' \<notin> set ?M" "CHR ''e'' \<notin> set ?M'"
    using p(3) q(3) is_digit_not_e by (auto simp: list_all_iff)
  from e p(4) q(4) have c: "c = c'"
    and "?M @ CHR ''e'' # (CHR ''+'' # show_nat (length (show_nat n) - 1))
       = ?M' @ CHR ''e'' # (CHR ''+'' # show_nat (length (show_nat m) - 1))"
    by simp_all
  from e_split [OF ne this(2)] have M: "?M = ?M'"
    and X: "show_nat (length (show_nat n) - 1) = show_nat (length (show_nat m) - 1)"
    by simp_all
  from M have t: "t = t'"
    by (auto split: if_splits)
  from X have "length (show_nat n) - 1 = length (show_nat m) - 1"
    by (rule show_nat_inj)
  moreover have "show_nat n \<noteq> []" "show_nat m \<noteq> []"
    using show_nat_digits by simp_all
  ultimately have l: "length (show_nat n) = length (show_nat m)"
    by (cases "show_nat n"; cases "show_nat m") simp_all
  from p(1) q(1) c t have "strip_zeros (show_nat n) = strip_zeros (show_nat m)"
    by simp
  with l strip_zeros_pad [of "show_nat n"] strip_zeros_pad [of "show_nat m"]
  have "show_nat n = show_nat m"
    by simp
  then show ?thesis
    by (rule show_nat_inj)
qed

lemma exp_text_has_e: "0 < n \<Longrightarrow> CHR ''e'' \<in> set (exp_text n)"
  using exp_text_parts [of n] by auto

lemma show_nat_no_e: "CHR ''e'' \<notin> set (show_nat n)"
  using show_nat_digits [of n] is_digit_not_e by (auto simp: list_all_iff)

lemma nat_text_inj: "nat_text n = nat_text m \<Longrightarrow> n = m"
proof -
  assume e: "nat_text n = nat_text m"
  consider "n < 1000000000000000000000" "m < 1000000000000000000000"
    | "n < 1000000000000000000000" "\<not> m < 1000000000000000000000"
    | "\<not> n < 1000000000000000000000" "m < 1000000000000000000000"
    | "\<not> n < 1000000000000000000000" "\<not> m < 1000000000000000000000"
    by blast
  then show ?thesis
  proof cases
    case 1
    with e show ?thesis by (simp add: nat_text_def show_nat_inj)
  next
    case 2
    with e have "show_nat n = exp_text m" by (simp add: nat_text_def)
    with exp_text_has_e [of m] show_nat_no_e [of n] 2 show ?thesis by simp
  next
    case 3
    with e have "exp_text n = show_nat m" by (simp add: nat_text_def)
    with exp_text_has_e [of n] show_nat_no_e [of m] 3 show ?thesis by simp
  next
    case 4
    with e have "exp_text n = exp_text m" by (simp add: nat_text_def)
    moreover from 4 have "0 < n" "0 < m" by simp_all
    ultimately show ?thesis by (intro exp_text_inj)
  qed
qed

lemma nat_text_shape:
  "\<exists>c cs. nat_text n = c # cs \<and> is_digit c \<and> list_all numchar cs"
proof (cases "n < 1000000000000000000000")
  case True
  obtain c cs where "show_nat n = c # cs"
    using show_nat_digits [of n] by (cases "show_nat n") auto
  with show_nat_digits [of n] True show ?thesis
    by (auto simp: nat_text_def list_all_iff is_digit_numchar)
next
  case False
  then have "0 < n" by simp
  from exp_text_parts [OF this] obtain c t where
    p: "is_digit c" "list_all is_digit t"
      "exp_text n = c # (if t = [] then [] else CHR ''.'' # t) @ ''e+''
        @ show_nat (length (show_nat n) - 1)"
    by blast
  have "list_all numchar (show_nat k)" for k
    using show_nat_digits [of k] by (auto simp: list_all_iff is_digit_numchar)
  moreover have "numchar CHR ''.''" "numchar CHR ''e''" "numchar CHR ''+''"
    by (simp_all add: numchar_def)
  moreover from p(2) have "list_all numchar t"
    by (auto simp: list_all_iff is_digit_numchar)
  ultimately show ?thesis
    using False p(1,3) by (simp add: nat_text_def)
qed

lemma number_text_first:
  "\<exists>c cs. number_text i = c # cs \<and> (is_digit c \<or> c = CHR ''-'')"
  using nat_text_shape [of "nat i"] nat_text_shape [of "nat (- i)"]
  by (auto simp: number_text_def)

lemma number_text_numchars: "list_all numchar (number_text i)"
proof -
  have "numchar CHR ''-''" by (simp add: numchar_def)
  then show ?thesis
    using nat_text_shape [of "nat i"] nat_text_shape [of "nat (- i)"]
    by (auto simp: number_text_def is_digit_numchar)
qed

lemma numchar_plain: "numchar c \<Longrightarrow> plain c"
  by (auto simp: numchar_def plain_def)

lemma number_text_plain: "list_all plain (number_text i)"
  using number_text_numchars [of i] by (auto simp: list_all_iff numchar_plain)

lemma number_text_inj: "number_text i = number_text j \<Longrightarrow> i = j"
proof -
  assume e: "number_text i = number_text j"
  have nd: "\<not> is_digit CHR ''-''" by (simp add: is_digit_def)
  have hd_digit: "is_digit (hd (nat_text k))" for k
    using nat_text_shape [of k] by auto
  have ne: "nat_text k \<noteq> []" for k
    using nat_text_shape [of k] by auto
  show ?thesis
  proof (cases "i < 0")
    case i: True
    show ?thesis
    proof (cases "j < 0")
      case True
      with i e have "nat (- i) = nat (- j)"
        by (auto simp: number_text_def dest: nat_text_inj)
      with i True show ?thesis by arith
    next
      case False
      with i e have "CHR ''-'' = hd (nat_text (nat j))"
        using ne [of "nat j"] by (cases "nat_text (nat j)") (simp_all add: number_text_def)
      with nd hd_digit [of "nat j"] show ?thesis by simp
    qed
  next
    case i: False
    show ?thesis
    proof (cases "j < 0")
      case True
      with i e have "CHR ''-'' = hd (nat_text (nat i))"
        using ne [of "nat i"] by (cases "nat_text (nat i)") (simp_all add: number_text_def)
      with nd hd_digit [of "nat i"] show ?thesis by simp
    next
      case False
      with i e have "nat i = nat j"
        by (auto simp: number_text_def dest: nat_text_inj)
      with i False show ?thesis by arith
    qed
  qed
qed

lemma numchars_split:
  "list_all numchar a \<Longrightarrow> list_all numchar b \<Longrightarrow>
   (r1 = [] \<or> \<not> numchar (hd r1)) \<Longrightarrow> (r2 = [] \<or> \<not> numchar (hd r2)) \<Longrightarrow>
   a @ r1 = b @ r2 \<Longrightarrow> a = b \<and> r1 = r2"
proof (induction a arbitrary: b)
  case Nil
  then show ?case by (cases b) auto
next
  case (Cons c a)
  then show ?case by (cases b) auto
qed

lemma delim_not_numchar: "delim r \<Longrightarrow> r = [] \<or> \<not> numchar (hd r)"
  by (cases r) (auto simp: delim_def numchar_def)

lemma number_text_split:
  assumes "delim r1" and "delim r2" and e: "number_text n @ r1 = number_text m @ r2"
  shows "n = m \<and> r1 = r2"
proof -
  from numchars_split [OF number_text_numchars number_text_numchars
      delim_not_numchar [OF assms(1)] delim_not_numchar [OF assms(2)] e]
  have "number_text n = number_text m" and "r1 = r2"
    by simp_all
  then show ?thesis
    by (simp add: number_text_inj)
qed

text \<open>Inside a string.\<close>

lemma quote_char_in:
  "lex_run In (quote_char c) = In \<and> depth_run In d (quote_char c) = d
   \<and> above m In d (quote_char c)"
proof -
  have k: "of_char c < (32::nat) \<Longrightarrow> plain (digit_char (of_char c div 16))
      \<and> plain (digit_char (of_char c mod 16))"
    by (simp add: digit_char_plain less_mult_imp_div_less)
  show ?thesis
    using k by (auto simp: quote_char_def plain_def)
qed

lemma quoted_body_in:
  "lex_run In (concat (map quote_char s)) = In
   \<and> depth_run In d (concat (map quote_char s)) = d
   \<and> above m In d (concat (map quote_char s))"
  by (induction s) (simp_all add: lex_run_append depth_run_append above_append quote_char_in)

lemma quote_closed: "closed_text (quote s)"
  by (simp add: closed_text_def quote_def lex_run_append depth_run_append above_append
      quoted_body_in)

lemma commas_closed: "list_all closed_text ts \<Longrightarrow> closed_text (commas ts)"
proof (induction ts rule: commas.induct)
  case (3 s t ss)
  have "closed_text '',''" by (simp add: closed_text_def)
  with 3 show ?case
    using closed_append [of s "CHR '','' # commas (t # ss)"] closed_append [of "'',''" "commas (t # ss)"]
    by simp
qed (simp_all add: closed_text_def)

text \<open>Wrapping a closed text in brackets.\<close>

lemma bracket_closed:
  assumes b: "closed_text b"
    and oc: "(opn, cls) = (CHR ''['', CHR '']'') \<or> (opn, cls) = (CHR ''{'', CHR ''}'')"
  shows "closed_text (opn # b @ [cls])"
    and "above 1 Out 0 (opn # b)" and "lex_run Out (opn # b) = Out"
    and "depth_run Out 0 (opn # b) = 1"
proof -
  have a1: "above 1 Out 1 b"
    using b by (rule closed_above)
  then have a0: "above 0 Out 1 b"
    by (rule above_mono) simp
  have l: "lex_run Out b = Out" and d: "depth_run Out 1 b = 1"
    using b by (simp_all add: closed_lex closed_depth)
  from oc a1 l d show "above 1 Out 0 (opn # b)" "lex_run Out (opn # b) = Out"
    "depth_run Out 0 (opn # b) = 1"
    by auto
  from oc a0 l d show "closed_text (opn # b @ [cls])"
    by (auto simp: closed_text_def lex_run_append depth_run_append above_append)
qed

lemma ser_closed:
  "(\<forall>t. JSON_ser v = Some t \<longrightarrow> closed_text t)"
  "list_all closed_text (ser_elems xs)"
  "list_all closed_text (ser_props kvs)"
proof (induction v and xs and kvs rule: JSON_ser_ser_elems_ser_props.induct)
  case (4 n)
  then show ?case by (simp add: plain_closed number_text_plain)
next
  case (6 s)
  then show ?case by (simp add: quote_closed)
next
  case (7 xs)
  then show ?case
    using bracket_closed(1) [of "commas (ser_elems xs)" "CHR ''[''" "CHR '']''"]
    by (simp add: commas_closed)
next
  case (8 kvs)
  then show ?case
    using bracket_closed(1) [of "commas (ser_props kvs)" "CHR ''{''" "CHR ''}''"]
    by (simp add: commas_closed)
next
  case (12 x xs)
  then show ?case by (auto simp: closed_text_def split: option.splits)
next
  case (14 kv kvs)
  have "closed_text '':''" by (simp add: closed_text_def)
  with 14 show ?case
    using closed_append [of "quote (fst kv)"] closed_append [of "'':''"]
    by (auto simp: quote_closed split: option.splits)
qed (simp_all add: closed_text_def)

lemma twin_scan:
  "above m1 l1 d1 cs \<Longrightarrow> above m2 l2 d2 cs \<Longrightarrow>
   (l1 = Out \<and> l2 = In) \<or> (l1 = In \<and> l2 = Out) \<Longrightarrow>
   (lex_run l1 cs = Out \<and> lex_run l2 cs = In) \<or> (lex_run l1 cs = In \<and> lex_run l2 cs = Out)"
proof (induction cs arbitrary: l1 l2 d1 d2)
  case Nil
  then show ?case by simp
next
  case (Cons c cs)
  from Cons.prems have nb: "c \<noteq> CHR 0x5C"
    by auto
  from Cons.prems have a1: "above m1 (lex_step l1 c) (d1 + depth_step l1 c) cs"
    and a2: "above m2 (lex_step l2 c) (d2 + depth_step l2 c) cs"
    by simp_all
  from Cons.prems(3) nb have
    "(lex_step l1 c = Out \<and> lex_step l2 c = In) \<or> (lex_step l1 c = In \<and> lex_step l2 c = Out)"
    by (cases "c = CHR 0x22") auto
  with a1 a2 show ?case
    using Cons.IH [of "lex_step l1 c" "d1 + depth_step l1 c" "lex_step l2 c" "d2 + depth_step l2 c"]
    by simp
qed

lemma above_last:
  "above m l d X \<Longrightarrow> X \<noteq> [] \<Longrightarrow> lex_run l X = Out \<Longrightarrow> m \<le> depth_run l d X"
proof (induction X arbitrary: l d)
  case Nil
  then show ?case by simp
next
  case (Cons c cs)
  show ?case
  proof (cases "cs = []")
    case True
    with Cons.prems show ?thesis by auto
  next
    case False
    with Cons.prems Cons.IH [of "lex_step l c" "d + depth_step l c"] show ?thesis
      by simp
  qed
qed

lemma array_text:
  "JSON_ser (JArr xs) = Some (CHR ''['' # commas (ser_elems xs) @ '']'')"
  by simp

lemma array_text_suffix_free:
  assumes e: "CHR ''['' # commas (ser_elems ys) @ '']'' = X @ CHR ''['' # commas (ser_elems xs) @ '']''"
  shows "X = []"
proof (rule ccontr)
  assume nX: "X \<noteq> []"
  define b1 where "b1 = commas (ser_elems xs)"
  define b2 where "b2 = commas (ser_elems ys)"
  have c1: "closed_text b1" and c2: "closed_text b2"
    by (simp_all add: b1_def b2_def commas_closed ser_closed)
  from e have "(CHR ''['' # b2) @ '']'' = (X @ CHR ''['' # b1) @ '']''"
    by (simp add: b1_def b2_def)
  then have e': "CHR ''['' # b2 = X @ CHR ''['' # b1"
    by (simp only: append_same_eq)
  define l where "l = lex_run Out X"
  define d where "d = depth_run Out 0 X"
  have "above 1 Out 0 (CHR ''['' # b2)"
    using c2 by (rule bracket_closed(2)) simp
  then have aX: "above 1 Out 0 X" and a1: "above 1 l d (CHR ''['' # b1)"
    unfolding e' by (simp_all add: above_append l_def d_def)
  have t2: "lex_run Out (CHR ''['' # b2 @ '']'') = Out" "depth_run Out 0 (CHR ''['' # b2 @ '']'') = 0"
    using bracket_closed(1) [OF c2, of "CHR ''[''" "CHR '']''"] by (simp_all add: closed_text_def)
  have split2: "CHR ''['' # b2 @ '']'' = X @ (CHR ''['' # b1 @ '']'')"
    using e' by simp
  show False
  proof (cases "l = Out")
    case True
    from True have "lex_run Out X = Out"
      by (simp add: l_def)
    with aX nX have "1 \<le> d"
      unfolding d_def by (rule above_last)
    moreover have "closed_text (CHR ''['' # b1 @ '']'')"
      using c1 by (rule bracket_closed(1)) simp
    then have "depth_run Out d (CHR ''['' # b1 @ '']'') = d"
      by (rule closed_depth)
    with t2(2) True have "d = 0"
      unfolding split2 by (simp add: depth_run_append l_def [symmetric] d_def [symmetric])
    ultimately show False by simp
  next
    case False
    then have s: "lex_step l CHR ''['' = In"
      by (cases l) simp_all
    from a1 s have a2: "above 1 In (d + depth_step l CHR ''['') b1"
      by simp
    have a0: "above 0 Out 0 b1"
      using c1 by (simp add: closed_text_def)
    from twin_scan [OF a0 a2] closed_lex [OF c1] have "lex_run In b1 = In"
      by simp
    with s have "lex_run l (CHR ''['' # b1 @ '']'') = In"
      by (simp add: lex_run_append)
    with t2(1) show False
      unfolding split2 by (simp add: lex_run_append l_def [symmetric])
  qed
qed

lemma payload_array_split:
  assumes "is_array v1" and "is_array v2"
    and e: "sql1 @ ToString (JSON_stringify v1) = sql2 @ ToString (JSON_stringify v2)"
  shows "sql1 = sql2 \<and> JSON_stringify v1 = JSON_stringify v2"
proof -
  from assms(1) obtain xs where v1: "v1 = JArr xs" by (cases v1) simp_all
  from assms(2) obtain ys where v2: "v2 = JArr ys" by (cases v2) simp_all
  let ?t1 = "CHR ''['' # commas (ser_elems xs) @ '']''"
  let ?t2 = "CHR ''['' # commas (ser_elems ys) @ '']''"
  from e have "sql1 @ ?t1 = sql2 @ ?t2"
    by (simp add: v1 v2 JSON_stringify_def)
  then obtain us where "(sql1 = sql2 @ us \<and> us @ ?t1 = ?t2) \<or> (sql1 @ us = sql2 \<and> ?t1 = us @ ?t2)"
    unfolding append_eq_append_conv2 by blast
  then have "sql1 = sql2 \<and> ?t1 = ?t2"
  proof
    assume h: "sql1 = sql2 @ us \<and> us @ ?t1 = ?t2"
    then have "us = []"
      using array_text_suffix_free [of ys us xs] by simp
    with h show ?thesis by simp
  next
    assume h: "sql1 @ us = sql2 \<and> ?t1 = us @ ?t2"
    then have "us = []"
      using array_text_suffix_free [of xs us ys] by simp
    with h show ?thesis by simp
  qed
  then show ?thesis
    by (simp add: v1 v2 JSON_stringify_def)
qed

lemma hex_inj:
  assumes "of_char c < (32::nat)" and "of_char d < (32::nat)"
    and "digit_char (of_char c div 16) = digit_char (of_char d div 16)"
    and "digit_char (of_char c mod 16) = digit_char (of_char d mod 16)"
  shows "c = d"
proof -
  have "(of_char c :: nat) div 16 = of_char d div 16"
    using assms(1,2,3) by (intro digit_char_inj) (simp_all add: less_mult_imp_div_less)
  moreover have "(of_char c :: nat) mod 16 = of_char d mod 16"
    using assms(4) by (intro digit_char_inj) simp_all
  ultimately have "(of_char c :: nat) = of_char d"
    by (metis div_mult_mod_eq)
  then show ?thesis
    by simp
qed

lemma quote_char_split:
  "quote_char c @ A = quote_char d @ B \<Longrightarrow> c = d \<and> A = B"
  by (auto simp: quote_char_def split: if_splits dest: hex_inj)

lemma quote_char_no_quote: "quote_char c @ A \<noteq> CHR 0x22 # B"
  by (auto simp: quote_char_def split: if_splits)

lemma quoted_body_split:
  "concat (map quote_char s) @ CHR 0x22 # r1 = concat (map quote_char t) @ CHR 0x22 # r2
   \<Longrightarrow> s = t \<and> r1 = r2"
proof (induction s arbitrary: t)
  case Nil
  show ?case
  proof (cases t)
    case Nil
    with Nil.prems show ?thesis by simp
  next
    case (Cons d t')
    with Nil.prems have "quote_char d @ (concat (map quote_char t') @ CHR 0x22 # r2)
        = CHR 0x22 # r1"
      by simp
    then show ?thesis
      by (simp only: quote_char_no_quote)
  qed
next
  case (Cons c s)
  show ?case
  proof (cases t)
    case Nil
    with Cons.prems have "quote_char c @ (concat (map quote_char s) @ CHR 0x22 # r1)
        = CHR 0x22 # r2"
      by simp
    then show ?thesis
      by (simp only: quote_char_no_quote)
  next
    case (Cons d t')
    with Cons.prems have "quote_char c @ (concat (map quote_char s) @ CHR 0x22 # r1)
        = quote_char d @ (concat (map quote_char t') @ CHR 0x22 # r2)"
      by simp
    then have "c = d" and "concat (map quote_char s) @ CHR 0x22 # r1
        = concat (map quote_char t') @ CHR 0x22 # r2"
      by (auto dest: quote_char_split)
    with Cons.IH [of t'] Cons show ?thesis
      by simp
  qed
qed

lemma quote_split: "quote s @ r1 = quote t @ r2 \<Longrightarrow> s = t \<and> r1 = r2"
  using quoted_body_split [of s r1 t r2] by (simp add: quote_def)

lemma ser_shape:
  assumes "json_value y" and "JSON_ser y = Some t"
  shows "(y = JNull \<and> t = ''null'') \<or> (y = JBool True \<and> t = ''true'')
    \<or> (y = JBool False \<and> t = ''false'')
    \<or> (\<exists>n c cs. y = JNum n \<and> t = number_text n \<and> t = c # cs \<and> (is_digit c \<or> c = CHR ''-''))
    \<or> (\<exists>s. y = JStr s \<and> t = quote s)
    \<or> (\<exists>ys. y = JArr ys \<and> json_elems ys \<and> t = CHR ''['' # commas (ser_elems ys) @ '']'')
    \<or> (\<exists>kvs. y = JObj kvs \<and> json_props kvs \<and> t = CHR ''{'' # commas (ser_props kvs) @ ''}'')"
  using assms number_text_first by (cases y) (auto split: if_splits)

lemma ser_first:
  assumes "json_value y" and "JSON_ser y = Some t"
  shows "\<exists>c cs. t = c # cs \<and> c \<notin> set '',]}:''"
  using ser_shape [OF assms] by (auto simp: is_digit_def quote_def)

lemma json_value_ser: "json_value x \<Longrightarrow> \<exists>s. JSON_ser x = Some s"
  by (cases x) simp_all

lemma commas_Cons: "commas (s # ss) = (if ss = [] then s else s @ CHR '','' # commas ss)"
  by (cases ss) simp_all

lemma ser_elems_empty: "(ser_elems xs = []) = (xs = [])"
  by (cases xs) simp_all

lemma ser_props_empty: "json_props kvs \<Longrightarrow> (ser_props kvs = []) = (kvs = [])"
  by (cases kvs) (auto dest: json_value_ser)

lemma lit_split:
  assumes "json_value y" and "JSON_ser y = Some t" and "lit @ r1 = t @ r2"
    and "lit = ''null'' \<or> lit = ''true'' \<or> lit = ''false''"
  shows "t = lit \<and> r1 = r2"
  using ser_shape [OF assms(1,2)] assms(3,4)
  by (auto simp: is_digit_def quote_def)

lemma num_split:
  assumes "json_value y" and "JSON_ser y = Some t" and "number_text n @ r1 = t @ r2"
    and "delim r1" and "delim r2"
  shows "y = JNum n \<and> r1 = r2"
proof -
  obtain c cs where f: "number_text n = c # cs" "is_digit c \<or> c = CHR ''-''"
    using number_text_first by blast
  from ser_shape [OF assms(1,2)] f assms(3) obtain m where "y = JNum m" "t = number_text m"
    by (auto simp: is_digit_def quote_def)
  with assms(3,4,5) show ?thesis
    by (auto dest: number_text_split)
qed

lemma str_split:
  assumes "json_value y" and "JSON_ser y = Some t" and "quote s @ r1 = t @ r2"
  shows "y = JStr s \<and> r1 = r2"
proof -
  from ser_shape [OF assms(1,2)] assms(3) obtain s' where "y = JStr s'" "t = quote s'"
    by (auto simp: is_digit_def quote_def)
  with assms(3) show ?thesis
    by (auto dest: quote_split)
qed

lemma arr_shape:
  assumes "json_value y" and "JSON_ser y = Some t" and "CHR ''['' # A = t @ r2"
  shows "\<exists>ys. y = JArr ys \<and> json_elems ys \<and> t = CHR ''['' # commas (ser_elems ys) @ '']''"
  using ser_shape [OF assms(1,2)] assms(3)
  by (auto simp: is_digit_def quote_def)

lemma obj_shape:
  assumes "json_value y" and "JSON_ser y = Some t" and "CHR ''{'' # A = t @ r2"
  shows "\<exists>kvs. y = JObj kvs \<and> json_props kvs \<and> t = CHR ''{'' # commas (ser_props kvs) @ ''}''"
  using ser_shape [OF assms(1,2)] assms(3)
  by (auto simp: is_digit_def quote_def)

lemma delim_simps: "delim (CHR '']'' # r)" "delim (CHR '','' # r)" "delim (CHR ''}'' # r)" "delim []"
  by (simp_all add: delim_def)

lemma lit_value:
  "json_value y \<Longrightarrow> JSON_ser y = Some ''null'' \<Longrightarrow> y = JNull"
  "json_value y \<Longrightarrow> JSON_ser y = Some ''true'' \<Longrightarrow> y = JBool True"
  "json_value y \<Longrightarrow> JSON_ser y = Some ''false'' \<Longrightarrow> y = JBool False"
proof -
  show "json_value y \<Longrightarrow> JSON_ser y = Some ''null'' \<Longrightarrow> y = JNull"
    using ser_shape [of y "''null''"] by (auto simp: is_digit_def quote_def)
  show "json_value y \<Longrightarrow> JSON_ser y = Some ''true'' \<Longrightarrow> y = JBool True"
    using ser_shape [of y "''true''"] by (auto simp: is_digit_def quote_def)
  show "json_value y \<Longrightarrow> JSON_ser y = Some ''false'' \<Longrightarrow> y = JBool False"
    using ser_shape [of y "''false''"] by (auto simp: is_digit_def quote_def)
qed

lemma ser_unique:
  "json_value x \<Longrightarrow>
     (\<forall>y s t r1 r2. json_value y \<longrightarrow> delim r1 \<longrightarrow> delim r2 \<longrightarrow> JSON_ser x = Some s \<longrightarrow>
        JSON_ser y = Some t \<longrightarrow> s @ r1 = t @ r2 \<longrightarrow> x = y \<and> r1 = r2)"
  "json_elems xs \<Longrightarrow>
     (\<forall>ys r1 r2. json_elems ys \<longrightarrow>
        commas (ser_elems xs) @ CHR '']'' # r1 = commas (ser_elems ys) @ CHR '']'' # r2 \<longrightarrow>
        xs = ys \<and> r1 = r2)"
  "json_props kvs \<Longrightarrow>
     (\<forall>kvs' r1 r2. json_props kvs' \<longrightarrow>
        commas (ser_props kvs) @ CHR ''}'' # r1 = commas (ser_props kvs') @ CHR ''}'' # r2 \<longrightarrow>
        kvs = kvs' \<and> r1 = r2)"
proof (induction x and xs and kvs rule: json_value_json_elems_json_props.induct)
  case 1
  then show ?case by simp
next
  case 2
  show ?case
  proof (intro allI impI)
    fix y s t r1 r2
    assume h: "json_value y" "JSON_ser JNull = Some s" "JSON_ser y = Some t" "s @ r1 = t @ r2"
    then have s: "s = ''null''" by simp
    have "t = s \<and> r1 = r2"
      by (rule lit_split [OF h(1) h(3) h(4)]) (simp add: s)
    with h(1,3) lit_value(1) [of y] s show "JNull = y \<and> r1 = r2"
      by simp
  qed
next
  case (3 b)
  show ?case
  proof (intro allI impI)
    fix y s t r1 r2
    assume h: "json_value y" "JSON_ser (JBool b) = Some s" "JSON_ser y = Some t" "s @ r1 = t @ r2"
    from h(2) have s: "s = (if b then ''true'' else ''false'')" by simp
    have ts: "t = s \<and> r1 = r2"
      by (rule lit_split [OF h(1) h(3) h(4)]) (simp add: s)
    show "JBool b = y \<and> r1 = r2"
    proof (cases b)
      case True
      with h(1,3) lit_value(2) [of y] s ts show ?thesis
        by simp
    next
      case False
      with h(1,3) lit_value(3) [of y] s ts show ?thesis
        by simp
    qed
  qed
next
  case (4 n)
  show ?case
  proof (intro allI impI)
    fix y s t r1 r2
    assume h: "json_value y" "delim r1" "delim r2" "JSON_ser (JNum n) = Some s"
      "JSON_ser y = Some t" "s @ r1 = t @ r2"
    then have "number_text n @ r1 = t @ r2" by simp
    from num_split [OF h(1) h(5) this h(2) h(3)] show "JNum n = y \<and> r1 = r2"
      by simp
  qed
next
  case 5
  then show ?case by simp
next
  case (6 s')
  show ?case
  proof (intro allI impI)
    fix y s t r1 r2
    assume h: "json_value y" "JSON_ser (JStr s') = Some s" "JSON_ser y = Some t" "s @ r1 = t @ r2"
    then have "quote s' @ r1 = t @ r2" by simp
    from str_split [OF h(1) h(3) this] show "JStr s' = y \<and> r1 = r2"
      by simp
  qed
next
  case (7 xs)
  show ?case
  proof (intro allI impI)
    fix y s t r1 r2
    assume h: "json_value y" "JSON_ser (JArr xs) = Some s" "JSON_ser y = Some t" "s @ r1 = t @ r2"
    from h(2) have s: "s = CHR ''['' # commas (ser_elems xs) @ '']''" by simp
    with h(4) have "CHR ''['' # (commas (ser_elems xs) @ '']'' @ r1) = t @ r2" by simp
    from arr_shape [OF h(1) h(3) this] obtain ys where
      y: "y = JArr ys" "json_elems ys" "t = CHR ''['' # commas (ser_elems ys) @ '']''"
      by blast
    from h(4) s y(3) have e: "commas (ser_elems xs) @ CHR '']'' # r1 = commas (ser_elems ys) @ CHR '']'' # r2"
      by simp
    from 7(2) have "json_elems xs" by simp
    from 7(1) [OF this] y(2) e have "xs = ys \<and> r1 = r2" by blast
    with y(1) show "JArr xs = y \<and> r1 = r2" by simp
  qed
next
  case (8 kvs)
  show ?case
  proof (intro allI impI)
    fix y s t r1 r2
    assume h: "json_value y" "JSON_ser (JObj kvs) = Some s" "JSON_ser y = Some t" "s @ r1 = t @ r2"
    from h(2) have s: "s = CHR ''{'' # commas (ser_props kvs) @ ''}''" by simp
    with h(4) have "CHR ''{'' # (commas (ser_props kvs) @ ''}'' @ r1) = t @ r2" by simp
    from obj_shape [OF h(1) h(3) this] obtain kvs' where
      y: "y = JObj kvs'" "json_props kvs'" "t = CHR ''{'' # commas (ser_props kvs') @ ''}''"
      by blast
    from h(4) s y(3) have e: "commas (ser_props kvs) @ CHR ''}'' # r1 = commas (ser_props kvs') @ CHR ''}'' # r2"
      by simp
    from 8(2) have "json_props kvs" by simp
    from 8(1) [OF this] y(2) e have "kvs = kvs' \<and> r1 = r2" by blast
    with y(1) show "JObj kvs = y \<and> r1 = r2" by simp
  qed
next
  case 9
  then show ?case by simp
next
  case 10
  then show ?case by simp
next
  case 11
  show ?case
  proof (intro allI impI)
    fix ys r1 r2
    assume h: "json_elems ys"
      "commas (ser_elems []) @ CHR '']'' # r1 = commas (ser_elems ys) @ CHR '']'' # r2"
    show "[] = ys \<and> r1 = r2"
    proof (cases ys)
      case Nil
      with h show ?thesis by simp
    next
      case (Cons y ys')
      with h(1) obtain t where t: "JSON_ser y = Some t" "json_value y"
        using json_value_ser [of y] by auto
      from ser_first [OF t(2) t(1)] obtain c cs where c: "t = c # cs" "c \<notin> set '',]}:''"
        by blast
      with h(2) Cons t(1) show ?thesis
        by (simp add: commas_Cons split: if_splits)
    qed
  qed
next
  case (12 x xs)
  from 12(3) have jx: "json_value x" and jxs: "json_elems xs" by simp_all
  from jx obtain s where s: "JSON_ser x = Some s"
    using json_value_ser by blast
  from ser_first [OF jx s] obtain c cs where c: "s = c # cs" "c \<notin> set '',]}:''"
    by blast
  show ?case
  proof (intro allI impI)
    fix ys r1 r2
    assume h: "json_elems ys"
      "commas (ser_elems (x # xs)) @ CHR '']'' # r1 = commas (ser_elems ys) @ CHR '']'' # r2"
    show "x # xs = ys \<and> r1 = r2"
    proof (cases ys)
      case Nil
      with h(2) s c show ?thesis
        by (simp add: commas_Cons split: if_splits)
    next
      case (Cons y ys')
      with h(1) have jy: "json_value y" and jys: "json_elems ys'" by simp_all
      from jy obtain t where t: "JSON_ser y = Some t"
        using json_value_ser by blast
      define R1 where "R1 = (if xs = [] then CHR '']'' # r1
        else CHR '','' # commas (ser_elems xs) @ CHR '']'' # r1)"
      define R2 where "R2 = (if ys' = [] then CHR '']'' # r2
        else CHR '','' # commas (ser_elems ys') @ CHR '']'' # r2)"
      have d: "delim R1" "delim R2"
        by (simp_all add: R1_def R2_def delim_simps)
      from h(2) Cons s t have "s @ R1 = t @ R2"
        by (auto simp: commas_Cons ser_elems_empty R1_def R2_def split: if_splits)
      with 12(1) [OF jx] jy d s t have xy: "x = y" and R: "R1 = R2"
        by blast+
      show ?thesis
      proof (cases "xs = []")
        case True
        with R have "ys' = []" "r1 = r2"
          by (auto simp: R1_def R2_def split: if_splits)
        with True xy Cons show ?thesis by simp
      next
        case False
        with R have ne: "ys' \<noteq> []"
          and e: "commas (ser_elems xs) @ CHR '']'' # r1 = commas (ser_elems ys') @ CHR '']'' # r2"
          by (auto simp: R1_def R2_def split: if_splits)
        from 12(2) [OF jxs] jys e have "xs = ys' \<and> r1 = r2"
          by blast
        with xy Cons show ?thesis by simp
      qed
    qed
  qed
next
  case 13
  show ?case
  proof (intro allI impI)
    fix kvs' r1 r2
    assume h: "json_props kvs'"
      "commas (ser_props []) @ CHR ''}'' # r1 = commas (ser_props kvs') @ CHR ''}'' # r2"
    show "[] = kvs' \<and> r1 = r2"
    proof (cases kvs')
      case Nil
      with h show ?thesis by simp
    next
      case (Cons kv' kvs'')
      with h(1) obtain t where t: "JSON_ser (snd kv') = Some t"
        using json_value_ser [of "snd kv'"] by auto
      with h(2) Cons show ?thesis
        by (simp add: commas_Cons quote_def split: if_splits)
    qed
  qed
next
  case (14 kv kvs)
  from 14(3) have jx: "json_value (snd kv)" and jxs: "json_props kvs" by simp_all
  from jx obtain s where s: "JSON_ser (snd kv) = Some s"
    using json_value_ser by blast
  show ?case
  proof (intro allI impI)
    fix kvs' r1 r2
    assume h: "json_props kvs'"
      "commas (ser_props (kv # kvs)) @ CHR ''}'' # r1 = commas (ser_props kvs') @ CHR ''}'' # r2"
    show "kv # kvs = kvs' \<and> r1 = r2"
    proof (cases kvs')
      case Nil
      with h(2) s show ?thesis
        by (simp add: commas_Cons quote_def split: if_splits)
    next
      case (Cons kv' kvs'')
      with h(1) have jy: "json_value (snd kv')" and jys: "json_props kvs''" by simp_all
      from jy obtain t where t: "JSON_ser (snd kv') = Some t"
        using json_value_ser by blast
      define R1 where "R1 = (if kvs = [] then CHR ''}'' # r1
        else CHR '','' # commas (ser_props kvs) @ CHR ''}'' # r1)"
      define R2 where "R2 = (if kvs'' = [] then CHR ''}'' # r2
        else CHR '','' # commas (ser_props kvs'') @ CHR ''}'' # r2)"
      have d: "delim R1" "delim R2"
        by (simp_all add: R1_def R2_def delim_simps)
      from h(2) Cons s t jxs jys
      have "quote (fst kv) @ (CHR '':'' # s @ R1) = quote (fst kv') @ (CHR '':'' # t @ R2)"
        by (auto simp: commas_Cons ser_props_empty R1_def R2_def split: if_splits)
      then have k: "fst kv = fst kv'" and "CHR '':'' # s @ R1 = CHR '':'' # t @ R2"
        by (auto dest: quote_split)
      then have "s @ R1 = t @ R2" by simp
      with 14(1) [OF jx] jy d s t have xy: "snd kv = snd kv'" and R: "R1 = R2"
        by blast+
      from k xy have kv: "kv = kv'" by (simp add: prod_eq_iff)
      show ?thesis
      proof (cases "kvs = []")
        case True
        with R have "kvs'' = []" "r1 = r2"
          by (auto simp: R1_def R2_def split: if_splits)
        with True kv Cons show ?thesis by simp
      next
        case False
        with R have e: "commas (ser_props kvs) @ CHR ''}'' # r1
            = commas (ser_props kvs'') @ CHR ''}'' # r2"
          by (auto simp: R1_def R2_def split: if_splits)
        from 14(2) [OF jxs] jys e have "kvs = kvs'' \<and> r1 = r2"
          by blast
        with kv Cons show ?thesis by simp
      qed
    qed
  qed
qed

lemma JSON_stringify_inj:
  assumes "json_value x" and "json_value y" and "JSON_stringify x = JSON_stringify y"
  shows "x = y"
proof -
  from assms(1,2) obtain s t where st: "JSON_ser x = Some s" "JSON_ser y = Some t"
    using json_value_ser by blast
  with assms(3) have "s @ [] = t @ []"
    by (simp add: JSON_stringify_def)
  with ser_unique(1) [OF assms(1)] assms(2) st show ?thesis
    using delim_simps(4) by blast
qed

subsection \<open>The two adapters compared\<close>

text \<open>
  C1, as stated, fails: the two adapters do not deliver the same outcome on every input.
  In CACHE mode the promise adapter has a guard the completion adapter lacks: when the
  primary store succeeds with a falsy result or falsy field metadata (here an update, for
  which the driver gives no field metadata) it answers from a cache read (here the entry is
  absent, so \<^verbatim>\<open>null\<close> with the marker), while the completion adapter hands over the
  primary result. And when the CACHE-mode fallback fails, the promise is rejected with the
  cache read error alone: a rejection carries no metadata, so no marker reaches the caller.
\<close>

theorem adapters_differ_counterexample:
  "\<not> same_outcome
       (fst (MysqlRedis_query sample_libs
              (sample_stores (Inr (JObj [(''affectedRows'', JNum 1)], JUndefined)) (Inr JNull)
                 (Inr (JStr ''OK'')))
              defaultCacheOptions ''update t set a = 1'' (JArr []) full_options (JFun ''cb'')))
       (fst (MysqlRedisAsync_query sample_libs
              (sample_stores (Inr (JObj [(''affectedRows'', JNum 1)], JUndefined)) (Inr JNull)
                 (Inr (JStr ''OK'')))
              defaultCacheOptions ''update t set a = 1'' (JArr []) full_options))
   \<and> promise_metadata
       (fst (MysqlRedisAsync_query sample_libs
              (sample_stores (Inl ''gone'') (Inl ''cache down'') (Inr (JStr ''OK'')))
              defaultCacheOptions ''select 1'' (JArr []) full_options))
     \<noteq> Some (JArr [JObj [(''cacheHit'', JStr ''sql.select 1[]'')]])"
  by (simp add: MysqlRedis_query_def MysqlRedisAsync_query_def option_defs key_defs store_defs
      arg_def)

text \<open>
  C1, amended. Take a promise-style call and the completion-style call with the same
  arguments (options omitted, or truthy options, or an array of values). Then:
  \<^item> whenever the primary store fails (and, in CACHE mode, whatever the cache read returns
    can be parsed), or the primary store succeeds and, outside SKIP mode, the cache write
    succeeds and, in CACHE mode, the result and the field metadata are truthy, both adapters
    deliver the same error or the same payload and metadata;
  \<^item> when the CACHE-mode fallback fails, both surface the cache read error; the completion
    adapter passes \<^verbatim>\<open>[{cacheHit: key}]\<close> with it, the promise is rejected with the error
    alone;
  \<^item> in CACHE mode, when the primary store succeeds with a falsy result or falsy field
    metadata, the completion adapter delivers the primary result with its metadata, while
    the promise adapter settles with the outcome of a cache read: rejected with the read
    error or with the parse error, and otherwise fulfilled with the parsed cache entry and
    \<^verbatim>\<open>[{cacheHit: key}]\<close>.
\<close>

theorem adapters_agree:
  assumes form: "po = JUndefined \<or> truthy po \<or> is_array vals"
  shows "((case primary_query S sql (bind_params vals) of
             Inl msg \<Rightarrow> async_mode this vals po \<noteq> CACHE \<or>
               (case cache_get S (async_key L this sql vals po) of
                  Inl msg' \<Rightarrow> True
                | Inr reply \<Rightarrow> (\<exists>d. JSON_parse L reply = Inr d))
           | Inr (rows, flds) \<Rightarrow> async_mode this vals po = SKIP \<or>
               ((async_mode this vals po = CACHE \<longrightarrow> truthy rows \<and> truthy flds) \<and>
                (\<exists>ack. cache_set S (async_key L this sql vals po) (JSON_stringify rows)
                         (JStr ''EX'') (async_expire this vals po) = Inr ack)))
          \<and> JSON_parse_text L ''null'' = Inr JNull \<longrightarrow>
          same_outcome (fst (completion_call L S this sql vals po f))
            (fst (MysqlRedisAsync_query L S this sql vals po)))
    \<and> (\<forall>msg msg'. async_mode this vals po = CACHE \<and>
          primary_query S sql (bind_params vals) = Inl msg \<and>
          cache_get S (async_key L this sql vals po) = Inl msg' \<longrightarrow>
          fst (completion_call L S this sql vals po f) =
            Invoke (JFun f)
              [JErr msg', JNull, JArr [JObj [(''cacheHit'', async_key L this sql vals po)]]] \<and>
          fst (MysqlRedisAsync_query L S this sql vals po) = Some (Reject (JErr msg')))
    \<and> (\<forall>rows flds. async_mode this vals po = CACHE \<and>
          primary_query S sql (bind_params vals) = Inr (rows, flds) \<and>
          \<not> (truthy rows \<and> truthy flds) \<longrightarrow>
          fst (completion_call L S this sql vals po f) = Invoke (JFun f) [JNull, rows, flds] \<and>
          fst (MysqlRedisAsync_query L S this sql vals po) =
            (case cache_get S (async_key L this sql vals po) of
               Inl msg \<Rightarrow> Some (Reject (JErr msg))
             | Inr reply \<Rightarrow>
                 (case JSON_parse L reply of
                    Inl exn \<Rightarrow> Some (Reject exn)
                  | Inr d \<Rightarrow>
                      Some (Resolve (JArr [d, JArr [JObj [(''cacheHit'',
                        async_key L this sql vals po)]]])))))"
proof (cases "po = JUndefined")
  case True
  then have c: "completion_call L S this sql vals po f =
      MysqlRedis_query L S this sql vals (JFun f) JUndefined"
    by (simp add: completion_call_def)
  from True have "same_resolution (cb_options vals (JFun f) JUndefined) (async_options vals po)"
    by (rule forms_same_resolution)
  then show ?thesis
    unfolding c using forms_handler(1) by (rule agree_form)
next
  case False
  then have c: "completion_call L S this sql vals po f =
      MysqlRedis_query L S this sql vals po (JFun f)"
    by (simp add: completion_call_def)
  from False form have "truthy po \<or> is_array vals"
    by simp
  then have "same_resolution (cb_options vals po (JFun f)) (async_options vals po)"
    by (rule forms_same_resolution)
  then show ?thesis
    unfolding c using forms_handler(2) by (rule agree_form)
qed

theorem adapters_agree_witness:
  "same_outcome
     (fst (completion_call sample_libs
            (sample_stores (Inl ''gone'') (Inl ''cache down'') (Inr (JStr ''OK'')))
            defaultCacheOptions ''select 1'' (JArr []) full_options ''cb''))
     (fst (MysqlRedisAsync_query sample_libs
            (sample_stores (Inl ''gone'') (Inl ''cache down'') (Inr (JStr ''OK'')))
            defaultCacheOptions ''select 1'' (JArr []) full_options))
   \<and> fst (completion_call sample_libs
            (sample_stores (Inl ''gone'') (Inl ''cache down'') (Inr (JStr ''OK'')))
            defaultCacheOptions ''select 1'' (JArr []) full_options ''cb'')
       = Invoke (JFun ''cb'')
           [JErr ''cache down'', JNull, JArr [JObj [(''cacheHit'', JStr ''sql.select 1[]'')]]]
   \<and> fst (MysqlRedisAsync_query sample_libs
            (sample_stores (Inl ''gone'') (Inl ''cache down'') (Inr (JStr ''OK'')))
            defaultCacheOptions ''select 1'' (JArr []) full_options)
       = Some (Reject (JErr ''cache down''))
   \<and> fst (completion_call sample_libs
            (sample_stores (Inr (JArr [], JUndefined)) (Inr (JStr ''[]'')) (Inr (JStr ''OK'')))
            defaultCacheOptions ''select 1'' (JArr []) full_options ''cb'')
       = Invoke (JFun ''cb'') [JNull, JArr [], JUndefined]
   \<and> fst (MysqlRedisAsync_query sample_libs
            (sample_stores (Inr (JArr [], JUndefined)) (Inr (JStr ''[]'')) (Inr (JStr ''OK'')))
            defaultCacheOptions ''select 1'' (JArr []) full_options)
       = Some (Resolve (JArr [JArr [], JArr [JObj [(''cacheHit'', JStr ''sql.select 1[]'')]]]))"
proof -
  let ?S = "sample_stores (Inl ''gone'') (Inl ''cache down'') (Inr (JStr ''OK''))"
  let ?T = "sample_stores (Inr (JArr [], JUndefined)) (Inr (JStr ''[]'')) (Inr (JStr ''OK''))"
  have form: "full_options = JUndefined \<or> truthy full_options \<or> is_array (JArr [])"
    by (simp add: full_options_def)
  have p: "case primary_query ?S ''select 1'' (bind_params (JArr [])) of
             Inl msg \<Rightarrow> async_mode defaultCacheOptions (JArr []) full_options \<noteq> CACHE \<or>
               (case cache_get ?S (async_key sample_libs defaultCacheOptions ''select 1'' (JArr [])
                       full_options) of
                  Inl msg' \<Rightarrow> True
                | Inr reply \<Rightarrow> (\<exists>d. JSON_parse sample_libs reply = Inr d))
           | Inr (rows, flds) \<Rightarrow> async_mode defaultCacheOptions (JArr []) full_options = SKIP \<or>
               ((async_mode defaultCacheOptions (JArr []) full_options = CACHE \<longrightarrow>
                   truthy rows \<and> truthy flds) \<and>
                (\<exists>ack. cache_set ?S (async_key sample_libs defaultCacheOptions ''select 1''
                           (JArr []) full_options) (JSON_stringify rows)
                         (JStr ''EX'') (async_expire defaultCacheOptions (JArr []) full_options)
                       = Inr ack))"
    by (simp add: sample_stores_def)
  have n: "JSON_parse_text sample_libs ''null'' = Inr JNull"
    by (simp add: sample_libs_def)
  have m: "async_mode defaultCacheOptions (JArr []) full_options = CACHE"
    by (simp add: option_defs)
  have g: "primary_query ?S ''select 1'' (bind_params (JArr [])) = Inl ''gone''"
    "cache_get ?S (async_key sample_libs defaultCacheOptions ''select 1'' (JArr []) full_options)
       = Inl ''cache down''"
    by (simp_all add: sample_stores_def)
  have g': "primary_query ?T ''select 1'' (bind_params (JArr [])) = Inr (JArr [], JUndefined)"
    "cache_get ?T (async_key sample_libs defaultCacheOptions ''select 1'' (JArr []) full_options)
       = Inr (JStr ''[]'')"
    "\<not> (truthy (JArr []) \<and> truthy JUndefined)"
    by (simp_all add: sample_stores_def)
  have j: "JSON_parse sample_libs (JStr ''[]'') = Inr (JArr [])"
    by (simp add: JSON_parse_def sample_libs_def)
  have k: "async_key sample_libs defaultCacheOptions ''select 1'' (JArr []) full_options
      = JStr ''sql.select 1[]''"
    by (simp add: option_defs key_defs)
  from adapters_agree [OF form, where S = ?S and sql = "''select 1''"
      and this = defaultCacheOptions and L = sample_libs and f = "''cb''"]
    p n m g k
  have a: "same_outcome
     (fst (completion_call sample_libs ?S defaultCacheOptions ''select 1'' (JArr []) full_options
        ''cb''))
     (fst (MysqlRedisAsync_query sample_libs ?S defaultCacheOptions ''select 1'' (JArr [])
        full_options))
   \<and> fst (completion_call sample_libs ?S defaultCacheOptions ''select 1'' (JArr []) full_options
        ''cb'')
       = Invoke (JFun ''cb'')
           [JErr ''cache down'', JNull, JArr [JObj [(''cacheHit'', JStr ''sql.select 1[]'')]]]
   \<and> fst (MysqlRedisAsync_query sample_libs ?S defaultCacheOptions ''select 1'' (JArr [])
        full_options)
       = Some (Reject (JErr ''cache down''))"
    by (simp add: arg_def)
  from adapters_agree [OF form, where S = ?T and sql = "''select 1''"
      and this = defaultCacheOptions and L = sample_libs and f = "''cb''"]
    m g' j k
  have b: "fst (completion_call sample_libs ?T defaultCacheOptions ''select 1'' (JArr [])
        full_options ''cb'')
       = Invoke (JFun ''cb'') [JNull, JArr [], JUndefined]
   \<and> fst (MysqlRedisAsync_query sample_libs ?T defaultCacheOptions ''select 1'' (JArr [])
        full_options)
       = Some (Resolve (JArr [JArr [], JArr [JObj [(''cacheHit'', JStr ''sql.select 1[]'')]]]))"
    by simp
  from a b show ?thesis
    by blast
qed

subsection \<open>Cache write failures\<close>

text \<open>
  C2. The claim: a failure of the cache write is never surfaced, the primary result is
  still returned. In the promise adapter the awaited \<^verbatim>\<open>set\<close> stands inside the \<^verbatim>\<open>try\<close>
  whose \<^verbatim>\<open>catch\<close> is meant for the primary error. In REFRESH mode a failed write rejects
  the promise with the write error; in CACHE mode it sends the call down the fallback path,
  which answers with the cache entry (here none) and the marker instead of the primary
  result. The completion adapter, on the same input, delivers the primary result.
\<close>

theorem async_cache_write_failure_surfaced:
  "fst (MysqlRedisAsync_query sample_libs
          (sample_stores (Inr (JArr [], JArr [])) (Inr JNull) (Inl ''READONLY''))
          defaultCacheOptions ''select 1'' (JArr []) full_refresh_options)
     = Some (Reject (JErr ''READONLY''))
   \<and> fst (MysqlRedisAsync_query sample_libs
          (sample_stores (Inr (JArr [], JArr [])) (Inr JNull) (Inl ''READONLY''))
          defaultCacheOptions ''select 1'' (JArr []) full_options)
     = Some (Resolve (JArr [JNull, cacheHit (JStr ''sql.select 1[]'')]))
   \<and> fst (MysqlRedis_query sample_libs
          (sample_stores (Inr (JArr [], JArr [])) (Inr JNull) (Inl ''READONLY''))
          defaultCacheOptions ''select 1'' (JArr []) full_refresh_options (JFun ''cb''))
     = Invoke (JFun ''cb'') [JNull, JArr [], JArr []]"
  by (simp add: MysqlRedis_query_def MysqlRedisAsync_query_def option_defs key_defs store_defs)

subsection \<open>Key derivation\<close>

text \<open>
  C3, as stated, fails: \<^verbatim>\<open>JSON.stringify\<close> writes an \<^verbatim>\<open>undefined\<close> element of an array as
  \<^verbatim>\<open>null\<close>, so the distinct parameter lists \<^verbatim>\<open>[null]\<close> and \<^verbatim>\<open>[undefined]\<close> of the same
  statement get the same key under the \<^verbatim>\<open>full\<close> strategy.
\<close>

theorem full_key_collision_counterexample:
  "(''select ?'', JArr [JNull]) \<noteq> (''select ?'', JArr [JUndefined])
   \<and> derive_key sample_libs defaultCacheOptions full_options ''select ?'' (JArr [JNull])
     = derive_key sample_libs defaultCacheOptions full_options ''select ?'' (JArr [JUndefined])"
  by (simp add: option_defs key_defs)

text \<open>
  C3, amended. Under the \<^verbatim>\<open>full\<close> strategy, with no literal key and a string prefix, two
  calls with parameter arrays get the same key exactly when they have the same statement and
  \<^verbatim>\<open>JSON.stringify\<close> writes their parameters alike (no serialised array is the tail of
  another one behind a longer statement). So two distinct pairs of a statement and an array
  of values that JSON writes without loss (\<^verbatim>\<open>null\<close>, booleans, integers, strings, arrays and
  plain objects of these) never get the same key.
\<close>

theorem full_key_injective:
  assumes "opt_or options ''hashType'' (hashType this) = HashTypes_full"
    and "\<not> truthy (literal_key options)"
    and "opt_or options ''keyPrefix'' (keyPrefix this) = JStr p"
    and "is_array v1" and "is_array v2"
  shows "((derive_key L this options sql1 v1 = derive_key L this options sql2 v2)
           = (sql1 = sql2 \<and> JSON_stringify v1 = JSON_stringify v2))
    \<and> (json_value v1 \<and> json_value v2 \<and> (sql1, v1) \<noteq> (sql2, v2) \<longrightarrow>
          derive_key L this options sql1 v1 \<noteq> derive_key L this options sql2 v2)"
proof -
  have k: "derive_key L this options s w = JStr (p @ s @ ToString (JSON_stringify w))" for s w
    using assms(1,2,3)
    by (simp add: derive_key_def payload_def Let_def js_plus_JStr hash_def HashTypes_full_def
        HashTypes_blake2b512_def)
  have e: "(derive_key L this options sql1 v1 = derive_key L this options sql2 v2)
      = (sql1 = sql2 \<and> JSON_stringify v1 = JSON_stringify v2)"
    using payload_array_split [OF assms(4,5), of sql1 sql2] by (auto simp: k)
  moreover have "derive_key L this options sql1 v1 \<noteq> derive_key L this options sql2 v2"
    if "json_value v1 \<and> json_value v2 \<and> (sql1, v1) \<noteq> (sql2, v2)"
    using that e JSON_stringify_inj [of v1 v2] by auto
  ultimately show ?thesis
    by blast
qed

theorem full_key_injective_witness:
  "opt_or full_options ''hashType'' (hashType defaultCacheOptions) = HashTypes_full
   \<and> \<not> truthy (literal_key full_options)
   \<and> opt_or full_options ''keyPrefix'' (keyPrefix defaultCacheOptions) = JStr ''sql.''
   \<and> is_array (JArr [JStr ''a'']) \<and> is_array (JArr [JStr ''b''])
   \<and> json_value (JArr [JStr ''a'']) \<and> json_value (JArr [JStr ''b''])
   \<and> (''select ?'', JArr [JStr ''a'']) \<noteq> (''select ?'', JArr [JStr ''b''])
   \<and> derive_key sample_libs defaultCacheOptions full_options ''select ?'' (JArr [JStr ''a''])
     \<noteq> derive_key sample_libs defaultCacheOptions full_options ''select ?'' (JArr [JStr ''b''])"
proof -
  have h1: "opt_or full_options ''hashType'' (hashType defaultCacheOptions) = HashTypes_full"
    by (simp add: option_defs)
  have h2: "\<not> truthy (literal_key full_options)"
    by (simp add: option_defs)
  have h3: "opt_or full_options ''keyPrefix'' (keyPrefix defaultCacheOptions) = JStr ''sql.''"
    by (simp add: option_defs)
  have h4: "is_array (JArr [JStr ''a''])" "is_array (JArr [JStr ''b''])"
    by simp_all
  have h5: "json_value (JArr [JStr ''a'']) \<and> json_value (JArr [JStr ''b''])
      \<and> (''select ?'', JArr [JStr ''a'']) \<noteq> (''select ?'', JArr [JStr ''b''])"
    by simp
  from full_key_injective [OF h1 h2 h3 h4, of sample_libs "''select ?''" "''select ?''"] h5
  have "derive_key sample_libs defaultCacheOptions full_options ''select ?'' (JArr [JStr ''a''])
     \<noteq> derive_key sample_libs defaultCacheOptions full_options ''select ?'' (JArr [JStr ''b''])"
    by blast
  with h1 h2 h3 h4 h5 show ?thesis
    by blast
qed

text \<open>
  C4. The claim: a call without parameters derives the key of the call with the empty
  parameter list. The source normalises absent parameters to \<^verbatim>\<open>[]\<close> for the primary store
  (\<^verbatim>\<open>Array.isArray(values) ? values : []\<close>) but serialises the raw \<^verbatim>\<open>values\<close> into the
  payload: absent parameters append the text \<^verbatim>\<open>undefined\<close>, and options passed in the place
  of the parameters append the serialised options. The promise call
  \<^verbatim>\<open>query("select 1", undefined, {hashType: full})\<close> and the completion call
  \<^verbatim>\<open>query("select 1", cb)\<close> on an instance of the \<^verbatim>\<open>full\<close> strategy derive
  \<^verbatim>\<open>sql.select 1undefined\<close>; with \<^verbatim>\<open>[]\<close> the key is \<^verbatim>\<open>sql.select 1[]\<close>; both send the
  parameters \<^verbatim>\<open>[]\<close> to the primary store.
\<close>

theorem absent_params_key_differs:
  "async_key sample_libs defaultCacheOptions ''select 1'' JUndefined full_options
     = JStr ''sql.select 1undefined''
   \<and> async_key sample_libs defaultCacheOptions ''select 1'' (JArr []) full_options
     = JStr ''sql.select 1[]''
   \<and> cb_key sample_libs (new_cacheOptions full_options) ''select 1'' (JFun ''cb'') JUndefined
       JUndefined
     = JStr ''sql.select 1undefined''
   \<and> cb_key sample_libs (new_cacheOptions full_options) ''select 1'' (JArr []) (JFun ''cb'')
       JUndefined
     = JStr ''sql.select 1[]''
   \<and> bind_params JUndefined = bind_params (JArr [])
   \<and> bind_params (JFun ''cb'') = bind_params (JArr [])"
  by (simp add: new_cacheOptions_def option_defs key_defs)



subsection \<open>The caching modes\<close>

text \<open>
  C9. In SKIP mode neither adapter sends a request to the cache store, whether the primary
  store succeeds or fails, and the primary error or the primary result with its field
  metadata is delivered as it came.
\<close>

theorem skip_mode_no_cache_call:
  "(cb_mode this vals oa ca = SKIP \<longrightarrow>
      filter is_cache_event (snd (MysqlRedis_query L S this sql vals oa ca)) = [] \<and>
      fst (MysqlRedis_query L S this sql vals oa ca) =
        (case primary_query S sql (bind_params vals) of
           Inl msg \<Rightarrow> Invoke (cb_handler vals oa ca) [JErr msg, JNull]
         | Inr (rows, flds) \<Rightarrow> Invoke (cb_handler vals oa ca) [JNull, rows, flds]))
   \<and> (async_mode this vals po = SKIP \<longrightarrow>
      filter is_cache_event (snd (MysqlRedisAsync_query L S this sql vals po)) = [] \<and>
      fst (MysqlRedisAsync_query L S this sql vals po) =
        (case primary_query S sql (bind_params vals) of
           Inl msg \<Rightarrow> Some (Reject (JErr msg))
         | Inr (rows, flds) \<Rightarrow> Some (Resolve (JArr [rows, flds]))))"
  by (auto simp: MysqlRedis_query_def MysqlRedisAsync_query_def Let_def mysqlConn_query_cb_def
      filter_cache_hash_events settle_def split: sum.splits prod.splits)

theorem skip_mode_no_cache_call_witness:
  "cb_mode defaultCacheOptions (JArr []) full_skip_options (JFun ''cb'') = SKIP
   \<and> async_mode defaultCacheOptions (JArr []) full_skip_options = SKIP
   \<and> fst (MysqlRedis_query sample_libs
            (sample_stores (Inl ''gone'') (Inr (JStr ''[]'')) (Inr (JStr ''OK'')))
            defaultCacheOptions ''select 1'' (JArr []) full_skip_options (JFun ''cb''))
       = Invoke (JFun ''cb'') [JErr ''gone'', JNull]
   \<and> fst (MysqlRedisAsync_query sample_libs
            (sample_stores (Inl ''gone'') (Inr (JStr ''[]'')) (Inr (JStr ''OK'')))
            defaultCacheOptions ''select 1'' (JArr []) full_skip_options)
       = Some (Reject (JErr ''gone''))
   \<and> filter is_cache_event
       (snd (MysqlRedis_query sample_libs
               (sample_stores (Inl ''gone'') (Inr (JStr ''[]'')) (Inr (JStr ''OK'')))
               defaultCacheOptions ''select 1'' (JArr []) full_skip_options (JFun ''cb''))) = []
   \<and> filter is_cache_event
       (snd (MysqlRedisAsync_query sample_libs
               (sample_stores (Inl ''gone'') (Inr (JStr ''[]'')) (Inr (JStr ''OK'')))
               defaultCacheOptions ''select 1'' (JArr []) full_skip_options)) = []"
proof -
  have h1: "cb_mode defaultCacheOptions (JArr []) full_skip_options (JFun ''cb'') = SKIP"
    by (simp add: option_defs)
  have h2: "async_mode defaultCacheOptions (JArr []) full_skip_options = SKIP"
    by (simp add: option_defs)
  from skip_mode_no_cache_call [of defaultCacheOptions "JArr []" full_skip_options "JFun ''cb''"
      sample_libs "sample_stores (Inl ''gone'') (Inr (JStr ''[]'')) (Inr (JStr ''OK''))"
      "''select 1''" full_skip_options] h1 h2
  show ?thesis
    by (simp add: sample_stores_def cb_handler_def)
qed

text \<open>
  C6. In CACHE mode, when the primary store fails and the cache store holds a text at the
  derived key (a text that \<^verbatim>\<open>JSON.parse\<close> accepts), both adapters deliver the parsed
  value as the payload and exactly \<^verbatim>\<open>[{cacheHit: key}]\<close> as the metadata, and no error.
\<close>

theorem cache_mode_fallback_hit:
  "(cb_mode this vals oa ca = CACHE \<and>
    primary_query S sql (bind_params vals) = Inl msg \<and>
    cache_get S (cb_key L this sql vals oa ca) = Inr (JStr txt) \<and>
    JSON_parse L (JStr txt) = Inr d \<longrightarrow>
      fst (MysqlRedis_query L S this sql vals oa ca) =
        Invoke (cb_handler vals oa ca)
          [JNull, d, JArr [JObj [(''cacheHit'', cb_key L this sql vals oa ca)]]])
   \<and> (async_mode this vals po = CACHE \<and>
    primary_query S sql (bind_params vals) = Inl msg \<and>
    cache_get S (async_key L this sql vals po) = Inr (JStr txt) \<and>
    JSON_parse L (JStr txt) = Inr d \<longrightarrow>
      fst (MysqlRedisAsync_query L S this sql vals po) =
        Some (Resolve (JArr [d, JArr [JObj [(''cacheHit'', async_key L this sql vals po)]]])))"
  by (simp add: MysqlRedis_query_def MysqlRedisAsync_query_def Let_def mysqlConn_query_cb_def
      redisClient_get_cb_def read_cache_def settle_def cacheHit_def)

theorem cache_mode_fallback_hit_witness:
  "cb_mode defaultCacheOptions (JArr []) full_options (JFun ''cb'') = CACHE
   \<and> async_mode defaultCacheOptions (JArr []) full_options = CACHE
   \<and> JSON_parse sample_libs (JStr ''[]'') = Inr (JArr [])
   \<and> fst (MysqlRedis_query sample_libs
            (sample_stores (Inl ''gone'') (Inr (JStr ''[]'')) (Inr (JStr ''OK'')))
            defaultCacheOptions ''select 1'' (JArr []) full_options (JFun ''cb''))
       = Invoke (JFun ''cb'')
           [JNull, JArr [], JArr [JObj [(''cacheHit'', JStr ''sql.select 1[]'')]]]
   \<and> fst (MysqlRedisAsync_query sample_libs
            (sample_stores (Inl ''gone'') (Inr (JStr ''[]'')) (Inr (JStr ''OK'')))
            defaultCacheOptions ''select 1'' (JArr []) full_options)
       = Some (Resolve (JArr [JArr [], JArr [JObj [(''cacheHit'', JStr ''sql.select 1[]'')]]]))"
proof -
  let ?S = "sample_stores (Inl ''gone'') (Inr (JStr ''[]'')) (Inr (JStr ''OK''))"
  have m: "cb_mode defaultCacheOptions (JArr []) full_options (JFun ''cb'') = CACHE"
    "async_mode defaultCacheOptions (JArr []) full_options = CACHE"
    by (simp_all add: option_defs)
  have s: "primary_query ?S ''select 1'' (bind_params (JArr [])) = Inl ''gone''"
    "cache_get ?S (cb_key sample_libs defaultCacheOptions ''select 1'' (JArr []) full_options
       (JFun ''cb'')) = Inr (JStr ''[]'')"
    "cache_get ?S (async_key sample_libs defaultCacheOptions ''select 1'' (JArr []) full_options)
       = Inr (JStr ''[]'')"
    by (simp_all add: sample_stores_def)
  have j: "JSON_parse sample_libs (JStr ''[]'') = Inr (JArr [])"
    by (simp add: JSON_parse_def sample_libs_def)
  have k: "cb_key sample_libs defaultCacheOptions ''select 1'' (JArr []) full_options (JFun ''cb'')
      = JStr ''sql.select 1[]''"
    "async_key sample_libs defaultCacheOptions ''select 1'' (JArr []) full_options
      = JStr ''sql.select 1[]''"
    by (simp_all add: option_defs key_defs)
  from cache_mode_fallback_hit [of defaultCacheOptions "JArr []" full_options "JFun ''cb''" ?S
      "''select 1''" "''gone''" sample_libs "''[]''" "JArr []" full_options] m s j
  have "fst (MysqlRedis_query sample_libs ?S defaultCacheOptions ''select 1'' (JArr [])
               full_options (JFun ''cb''))
          = Invoke (cb_handler (JArr []) full_options (JFun ''cb''))
              [JNull, JArr [], JArr [JObj [(''cacheHit'', cb_key sample_libs defaultCacheOptions
                 ''select 1'' (JArr []) full_options (JFun ''cb''))]]]
        \<and> fst (MysqlRedisAsync_query sample_libs ?S defaultCacheOptions ''select 1'' (JArr [])
               full_options)
          = Some (Resolve (JArr [JArr [], JArr [JObj [(''cacheHit'', async_key sample_libs
                 defaultCacheOptions ''select 1'' (JArr []) full_options)]]]))"
    by blast
  with m j k show ?thesis
    by (simp add: cb_handler_def)
qed

text \<open>
  C7. In CACHE mode, when the primary store fails and the cache store has no value at the
  derived key (\<^verbatim>\<open>get\<close> answers \<^verbatim>\<open>null\<close>), both adapters complete without an error, with a
  \<^verbatim>\<open>null\<close> payload and exactly \<^verbatim>\<open>[{cacheHit: key}]\<close> as the metadata. The promise adapter
  gets there through \<^verbatim>\<open>JSON.parse(null)\<close>, which parses the text \<^verbatim>\<open>null\<close>.
\<close>

theorem cache_mode_fallback_miss:
  "(cb_mode this vals oa ca = CACHE \<and>
    primary_query S sql (bind_params vals) = Inl msg \<and>
    cache_get S (cb_key L this sql vals oa ca) = Inr JNull \<longrightarrow>
      fst (MysqlRedis_query L S this sql vals oa ca) =
        Invoke (cb_handler vals oa ca)
          [JNull, JNull, JArr [JObj [(''cacheHit'', cb_key L this sql vals oa ca)]]])
   \<and> (async_mode this vals po = CACHE \<and>
    primary_query S sql (bind_params vals) = Inl msg \<and>
    cache_get S (async_key L this sql vals po) = Inr JNull \<and>
    JSON_parse_text L ''null'' = Inr JNull \<longrightarrow>
      fst (MysqlRedisAsync_query L S this sql vals po) =
        Some (Resolve (JArr [JNull, JArr [JObj [(''cacheHit'', async_key L this sql vals po)]]])))"
  by (simp add: MysqlRedis_query_def MysqlRedisAsync_query_def Let_def mysqlConn_query_cb_def
      redisClient_get_cb_def read_cache_def settle_def JSON_parse_def cacheHit_def)

theorem cache_mode_fallback_miss_witness:
  "cb_mode defaultCacheOptions (JArr []) full_options (JFun ''cb'') = CACHE
   \<and> async_mode defaultCacheOptions (JArr []) full_options = CACHE
   \<and> JSON_parse_text sample_libs ''null'' = Inr JNull
   \<and> fst (MysqlRedis_query sample_libs
            (sample_stores (Inl ''gone'') (Inr JNull) (Inr (JStr ''OK'')))
            defaultCacheOptions ''select 1'' (JArr []) full_options (JFun ''cb''))
       = Invoke (JFun ''cb'')
           [JNull, JNull, JArr [JObj [(''cacheHit'', JStr ''sql.select 1[]'')]]]
   \<and> fst (MysqlRedisAsync_query sample_libs
            (sample_stores (Inl ''gone'') (Inr JNull) (Inr (JStr ''OK'')))
            defaultCacheOptions ''select 1'' (JArr []) full_options)
       = Some (Resolve (JArr [JNull, JArr [JObj [(''cacheHit'', JStr ''sql.select 1[]'')]]]))"
proof -
  let ?S = "sample_stores (Inl ''gone'') (Inr JNull) (Inr (JStr ''OK''))"
  have m: "cb_mode defaultCacheOptions (JArr []) full_options (JFun ''cb'') = CACHE"
    "async_mode defaultCacheOptions (JArr []) full_options = CACHE"
    by (simp_all add: option_defs)
  have s: "primary_query ?S ''select 1'' (bind_params (JArr [])) = Inl ''gone''"
    "cache_get ?S (cb_key sample_libs defaultCacheOptions ''select 1'' (JArr []) full_options
       (JFun ''cb'')) = Inr JNull"
    "cache_get ?S (async_key sample_libs defaultCacheOptions ''select 1'' (JArr []) full_options)
       = Inr JNull"
    by (simp_all add: sample_stores_def)
  have j: "JSON_parse_text sample_libs ''null'' = Inr JNull"
    by (simp add: sample_libs_def)
  have k: "cb_key sample_libs defaultCacheOptions ''select 1'' (JArr []) full_options (JFun ''cb'')
      = JStr ''sql.select 1[]''"
    "async_key sample_libs defaultCacheOptions ''select 1'' (JArr []) full_options
      = JStr ''sql.select 1[]''"
    by (simp_all add: option_defs key_defs)
  from cache_mode_fallback_miss [of defaultCacheOptions "JArr []" full_options "JFun ''cb''" ?S
      "''select 1''" "''gone''" sample_libs full_options] m s j
  have "fst (MysqlRedis_query sample_libs ?S defaultCacheOptions ''select 1'' (JArr [])
               full_options (JFun ''cb''))
          = Invoke (cb_handler (JArr []) full_options (JFun ''cb''))
              [JNull, JNull, JArr [JObj [(''cacheHit'', cb_key sample_libs defaultCacheOptions
                 ''select 1'' (JArr []) full_options (JFun ''cb''))]]]
        \<and> fst (MysqlRedisAsync_query sample_libs ?S defaultCacheOptions ''select 1'' (JArr [])
               full_options)
          = Some (Resolve (JArr [JNull, JArr [JObj [(''cacheHit'', async_key sample_libs
                 defaultCacheOptions ''select 1'' (JArr []) full_options)]]]))"
    by blast
  with m j k show ?thesis
    by (simp add: cb_handler_def)
qed

text \<open>
  C10, as stated, fails: in the promise adapter under CACHE mode, a primary result that is
  falsy (or comes with falsy field metadata) makes the adapter read the cache, but the
  promise is fulfilled with the cache entry only when that read succeeds. Here the primary
  store answers an update without field metadata and the cache read fails: the promise is
  rejected with the read error.
\<close>

theorem async_falsy_result_counterexample:
  "fst (MysqlRedisAsync_query sample_libs
          (sample_stores (Inr (JObj [(''affectedRows'', JNum 1)], JUndefined))
             (Inl ''cache down'') (Inr (JStr ''OK'')))
          defaultCacheOptions ''update t set a = 1'' (JArr []) full_options)
     = Some (Reject (JErr ''cache down''))
   \<and> promise_metadata
       (fst (MysqlRedisAsync_query sample_libs
               (sample_stores (Inr (JObj [(''affectedRows'', JNum 1)], JUndefined))
                  (Inl ''cache down'') (Inr (JStr ''OK'')))
               defaultCacheOptions ''update t set a = 1'' (JArr []) full_options))
     \<noteq> Some (JArr [JObj [(''cacheHit'', JStr ''sql.update t set a = 1[]'')]])"
  by (simp add: MysqlRedisAsync_query_def option_defs key_defs store_defs)

text \<open>
  C10, amended. In the promise adapter under CACHE mode, when the primary store succeeds
  with a falsy result or falsy field metadata, the adapter reads the cache at the derived
  key and settles the promise with the outcome of that read in place of the primary result:
  rejected with the read error when the read fails, rejected with the parse error when the
  answer does not parse, and otherwise fulfilled with the parsed cache entry and exactly
  \<^verbatim>\<open>[{cacheHit: key}]\<close>. In every case the cache write is sent afterwards (and, should it
  fail, the cache is read once more, to no effect on the promise).
\<close>

theorem async_falsy_result_reads_cache:
  "async_mode this vals po = CACHE \<and>
   primary_query S sql (bind_params vals) = Inr (rows, flds) \<and>
   \<not> (truthy rows \<and> truthy flds) \<longrightarrow>
     fst (MysqlRedisAsync_query L S this sql vals po) =
       (case cache_get S (async_key L this sql vals po) of
          Inl msg \<Rightarrow> Some (Reject (JErr msg))
        | Inr reply \<Rightarrow>
            (case JSON_parse L reply of
               Inl exn \<Rightarrow> Some (Reject exn)
             | Inr d \<Rightarrow>
                 Some (Resolve (JArr [d, JArr [JObj [(''cacheHit'',
                   async_key L this sql vals po)]]])))) \<and>
     snd (MysqlRedisAsync_query L S this sql vals po) =
       hash_events this (async_options vals po) sql vals @
       [MysqlQuery sql (bind_params vals),
        RedisGet (async_key L this sql vals po),
        RedisSet (async_key L this sql vals po) (JSON_stringify rows) (JStr ''EX'')
          (async_expire this vals po)] @
       (case cache_set S (async_key L this sql vals po) (JSON_stringify rows) (JStr ''EX'')
               (async_expire this vals po) of
          Inl msg \<Rightarrow> [RedisGet (async_key L this sql vals po)]
        | Inr ack \<Rightarrow> [])"
  using guard_async [of this vals po S sql rows flds L] by blast

theorem async_falsy_result_reads_cache_witness:
  "async_mode defaultCacheOptions (JArr []) full_options = CACHE
   \<and> \<not> (truthy (JArr []) \<and> truthy JUndefined)
   \<and> fst (MysqlRedisAsync_query sample_libs
            (sample_stores (Inr (JArr [], JUndefined)) (Inr (JStr ''[]'')) (Inr (JStr ''OK'')))
            defaultCacheOptions ''select 1'' (JArr []) full_options)
       = Some (Resolve (JArr [JArr [], JArr [JObj [(''cacheHit'', JStr ''sql.select 1[]'')]]]))
   \<and> snd (MysqlRedisAsync_query sample_libs
            (sample_stores (Inr (JArr [], JUndefined)) (Inr (JStr ''[]'')) (Inr (JStr ''OK'')))
            defaultCacheOptions ''select 1'' (JArr []) full_options)
       = [HashCall ''select 1[]'' (JNum 3), MysqlQuery ''select 1'' (JArr []),
          RedisGet (JStr ''sql.select 1[]''),
          RedisSet (JStr ''sql.select 1[]'') (JStr ''[]'') (JStr ''EX'') (JNum 2629746)]"
proof -
  let ?S = "sample_stores (Inr (JArr [], JUndefined)) (Inr (JStr ''[]'')) (Inr (JStr ''OK''))"
  have m: "async_mode defaultCacheOptions (JArr []) full_options = CACHE"
    by (simp add: option_defs)
  have s: "primary_query ?S ''select 1'' (bind_params (JArr [])) = Inr (JArr [], JUndefined)"
    by (simp add: sample_stores_def)
  have t: "\<not> (truthy (JArr []) \<and> truthy JUndefined)"
    by simp
  have g: "cache_get ?S (async_key sample_libs defaultCacheOptions ''select 1'' (JArr [])
       full_options) = Inr (JStr ''[]'')"
    "cache_set ?S (async_key sample_libs defaultCacheOptions ''select 1'' (JArr [])
       full_options) (JSON_stringify (JArr [])) (JStr ''EX'')
       (async_expire defaultCacheOptions (JArr []) full_options) = Inr (JStr ''OK'')"
    by (simp_all add: sample_stores_def)
  have j: "JSON_parse sample_libs (JStr ''[]'') = Inr (JArr [])"
    by (simp add: JSON_parse_def sample_libs_def)
  have k: "async_key sample_libs defaultCacheOptions ''select 1'' (JArr []) full_options
      = JStr ''sql.select 1[]''"
    "async_expire defaultCacheOptions (JArr []) full_options = JNum 2629746"
    "hash_events defaultCacheOptions (async_options (JArr []) full_options) ''select 1'' (JArr [])
      = [HashCall ''select 1[]'' (JNum 3)]"
    "JSON_stringify (JArr []) = JStr ''[]''"
    "bind_params (JArr []) = JArr []"
    by (simp_all add: option_defs key_defs hash_events_def)
  from async_falsy_result_reads_cache [of defaultCacheOptions "JArr []" full_options ?S
      "''select 1''" "JArr []" JUndefined sample_libs] m s t
  have "fst (MysqlRedisAsync_query sample_libs ?S defaultCacheOptions ''select 1'' (JArr [])
               full_options)
          = (case cache_get ?S (async_key sample_libs defaultCacheOptions ''select 1'' (JArr [])
                   full_options) of
               Inl msg \<Rightarrow> Some (Reject (JErr msg))
             | Inr reply \<Rightarrow>
                 (case JSON_parse sample_libs reply of
                    Inl exn \<Rightarrow> Some (Reject exn)
                  | Inr d \<Rightarrow>
                      Some (Resolve (JArr [d, JArr [JObj [(''cacheHit'',
                        async_key sample_libs defaultCacheOptions ''select 1'' (JArr [])
                          full_options)]]]))))
        \<and> snd (MysqlRedisAsync_query sample_libs ?S defaultCacheOptions ''select 1'' (JArr [])
               full_options)
          = hash_events defaultCacheOptions (async_options (JArr []) full_options) ''select 1''
              (JArr []) @
            [MysqlQuery ''select 1'' (bind_params (JArr [])),
             RedisGet (async_key sample_libs defaultCacheOptions ''select 1'' (JArr [])
               full_options),
             RedisSet (async_key sample_libs defaultCacheOptions ''select 1'' (JArr [])
               full_options) (JSON_stringify (JArr [])) (JStr ''EX'')
               (async_expire defaultCacheOptions (JArr []) full_options)] @
            (case cache_set ?S (async_key sample_libs defaultCacheOptions ''select 1'' (JArr [])
                    full_options) (JSON_stringify (JArr [])) (JStr ''EX'')
                    (async_expire defaultCacheOptions (JArr []) full_options) of
               Inl msg \<Rightarrow> [RedisGet (async_key sample_libs defaultCacheOptions ''select 1''
                 (JArr []) full_options)]
             | Inr ack \<Rightarrow> [])"
    by blast
  with m t g j k show ?thesis
    by simp
qed

subsection \<open>The hash strategies\<close>

text \<open>
  C5. The claim: the fast32 strategy re-encodes the 32-bit fingerprint of the payload and the
  fast64 strategy the 64-bit fingerprint. The source has the two fingerprints exchanged:
  \<^verbatim>\<open>HashTypes.farmhash32\<close> (and every unknown strategy) re-encodes
  \<^verbatim>\<open>farmhash.fingerprint64\<close>, and \<^verbatim>\<open>HashTypes.farmhash64\<close> re-encodes
  \<^verbatim>\<open>farmhash.fingerprint32\<close>.
\<close>

theorem hash_farmhash_exchanged:
  "hash L s HashTypes_farmhash32 = toString64 L (parseInt L (fingerprint64 L s))
   \<and> hash L s HashTypes_farmhash64 = toString64 L (parseInt L (fingerprint32 L s))"
  by (simp add: hash_def HashTypes_farmhash32_def HashTypes_farmhash64_def
      HashTypes_blake2b512_def HashTypes_full_def)

end
